theory Spec2Isabelle
  imports Main "HOL-Library.Monad_Syntax" "HOL-Library.AList"
begin

section \<open>Python values\<close>

text \<open>
  A Python \<open>str\<close> is modelled as the list of its code points, so that characters outside
  Latin-1 (the JSON key for epsilon transitions, U+03B5) are ordinary characters.
  \<open>ch\<close> and \<open>py\<close> write ASCII literals.
\<close>

type_synonym pychar = nat
type_synonym pystr = "pychar list"

abbreviation ch :: "char \<Rightarrow> pychar" where "ch c \<equiv> of_char c"
abbreviation py :: "string \<Rightarrow> pystr" where "py s \<equiv> map of_char s"

abbreviation BACKSLASH :: pychar where "BACKSLASH \<equiv> 92"

section \<open>RegexCompiler.py: the parser\<close>

datatype NodeType = Root | CharN | Group | CharacterSet | RangeN | Any | UNKNOWN

text \<open>
  \<open>ExprNode\<close>: \<open>type\<close>, \<open>value\<close>, \<open>params\<close> and \<open>children\<close>. The dictionary \<open>params\<close> only ever
  holds the keys \<open>'quantifier'\<close>, \<open>'start'\<close> and \<open>'end'\<close>; each is an optional field here.
\<close>

datatype ExprNode = ExprNode
  (ntype: NodeType)
  (nvalue: "pystr option")
  (quantifier: "pystr option")
  (range_start: "nat option")
  (range_end: "nat option")
  (children: "ExprNode list list")

text \<open>
  Every \<open>raise Exception(f'... at position {self._position}')\<close> of the parser, with its
  position; \<open>TypeError\<close> is what \<open>ord(None)\<close> would raise in \<open>_parseRange\<close>.
\<close>

datatype parse_error =
    Expected_rparen nat
  | Expected_rbracket nat
  | Unexpected "pychar option" nat
  | Unexpected_end nat
  | Expected_start_gt_end nat
  | TypeError

text \<open>
  The parser object is the immutable \<open>expr_str\<close> and the cursor \<open>_position\<close>; every method
  takes the cursor and returns the new one. \<open>_eat\<close> is only ever called with \<open>None\<close> or a
  one-character string, so its argument is an optional character.
\<close>

definition eat :: "pystr \<Rightarrow> nat \<Rightarrow> pychar option \<Rightarrow> bool \<times> nat" where
  "eat s pos char =
     (if pos \<ge> length s then (False, pos)
      else case char of
        None \<Rightarrow> (True, pos + 1)
      | Some c \<Rightarrow> if s ! pos \<noteq> c then (False, pos) else (True, pos + 1))"

definition peak :: "pystr \<Rightarrow> nat \<Rightarrow> nat \<Rightarrow> pychar option" where
  "peak s pos offset = (if pos + offset \<ge> length s then None else Some (s ! (pos + offset)))"

definition is_done :: "pystr \<Rightarrow> nat \<Rightarrow> bool" where
  "is_done s pos = (pos \<ge> length s)"

definition SPECIAL_CHARS :: "pychar list" where
  "SPECIAL_CHARS = [ch CHR ''('', ch CHR '')'', ch CHR ''['', ch CHR ''|'', ch CHR ''?'',
                    ch CHR ''+'', ch CHR ''*'']"

definition new_node :: "NodeType \<Rightarrow> ExprNode" where
  "new_node t = ExprNode t None None None None []"

definition set_quantifier :: "ExprNode \<Rightarrow> pystr \<Rightarrow> ExprNode" where
  "set_quantifier n q =
     ExprNode (ntype n) (nvalue n) (Some q) (range_start n) (range_end n) (children n)"

definition assignQuantifier :: "pystr \<Rightarrow> nat \<Rightarrow> ExprNode \<Rightarrow> ExprNode \<times> nat" where
  "assignQuantifier s pos node =
     (let (b1, pos1) = eat s pos (Some (ch CHR ''?'')) in
      if b1 then (set_quantifier node (py ''?''), pos1)
      else let (b2, pos2) = eat s pos1 (Some (ch CHR ''+'')) in
      if b2 then (set_quantifier node (py ''+''), pos2)
      else let (b3, pos3) = eat s pos2 (Some (ch CHR ''*'')) in
      if b3 then (set_quantifier node (py ''*''), pos3)
      else (node, pos3))"

definition parseChar :: "pystr \<Rightarrow> nat \<Rightarrow> ExprNode \<times> nat" where
  "parseChar s pos =
     (let top = peak s pos 0;
          (b, pos1) = eat s pos top
      in (ExprNode CharN (map_option (\<lambda>c. [c]) top) None None None [], pos1))"

definition parseAny :: "pystr \<Rightarrow> nat \<Rightarrow> ExprNode \<times> nat" where
  "parseAny s pos =
     (let (b, pos1) = eat s pos (Some (ch CHR ''.''))
      in (new_node Any, pos1))"

definition parseRange :: "pystr \<Rightarrow> nat \<Rightarrow> parse_error + ExprNode option \<times> nat" where
  "parseRange s pos =
     (if peak s pos 1 = Some (ch CHR ''-'') \<and> peak s pos 2 \<noteq> None then
        let start = peak s pos 0;
            end = peak s pos 2;
            (b1, pos1) = eat s pos None;
            (b2, pos2) = eat s pos1 None;
            (b3, pos3) = eat s pos2 None
        in case start of
             None \<Rightarrow> Inl TypeError
           | Some a \<Rightarrow>
              (case end of
                 None \<Rightarrow> Inl TypeError
               | Some b \<Rightarrow>
                  if a > b then Inl (Expected_start_gt_end pos3)
                  else Inr (Some (ExprNode RangeN None None (Some a) (Some b) []), pos3))
      else Inr (None, pos))"

text \<open>
  \<open>_parseSet\<close>: the \<open>while not self._done()\<close> loop, with the loop variables \<open>next_escape\<close>
  and \<open>curr_node.children\<close> as arguments. \<open>_parseChar\<close> never returns \<open>None\<close>, so the two
  \<open>if node is None: raise\<close> after it are dead and have no branch here.
\<close>

partial_function (option) parseSet ::
  "pystr \<Rightarrow> nat \<Rightarrow> bool \<Rightarrow> ExprNode list list \<Rightarrow> (parse_error + ExprNode \<times> nat) option" where
  "parseSet s pos next_escape chn =
    (if is_done s pos then Some (Inr (ExprNode CharacterSet None None None None chn, pos))
     else if peak s pos 0 = None then Some (Inl (Unexpected_end pos))
     else if peak s pos 0 = Some BACKSLASH then
       (let (b, pos1) = eat s pos None in parseSet s pos1 True chn)
     else if \<not> next_escape \<and> peak s pos 0 = Some (ch CHR '']'') then
       Some (Inr (ExprNode CharacterSet None None None None chn, pos))
     else
       (case parseRange s pos of
          Inl e \<Rightarrow> Some (Inl e)
        | Inr (r, pos1) \<Rightarrow>
           (case r of
              Some node \<Rightarrow> parseSet s pos1 False (chn @ [[node]])
            | None \<Rightarrow>
               (let (node, pos2) = parseChar s pos1
                in parseSet s pos2 False (chn @ [[node]])))))"

text \<open>
  \<open>_parseGroup\<close>: the loop variables are the cursor, \<open>curr_node.children\<close> and \<open>curr_or\<close>.
  The source appends the atom to \<open>children[curr_or]\<close> and then lets \<open>_assignQuantifier\<close>
  mutate the appended object; here the quantifier is set before the node is appended.
  \<open>_parse(t)\<close> only dispatches on \<open>t\<close> and is inlined at each call.
\<close>

definition append_child :: "ExprNode list list \<Rightarrow> nat \<Rightarrow> ExprNode \<Rightarrow> ExprNode list list" where
  "append_child chn curr_or node = chn[curr_or := chn ! curr_or @ [node]]"

partial_function (option) parseGroup ::
  "pystr \<Rightarrow> bool \<Rightarrow> nat \<Rightarrow> ExprNode list list \<Rightarrow> nat \<Rightarrow> (parse_error + ExprNode \<times> nat) option" where
  "parseGroup s is_root pos chn curr_or =
    (if is_done s pos then Some (Inr (ExprNode Group None None None None chn, pos))
     else let (b1, pos1) = eat s pos (Some (ch CHR ''('')) in
     if b1 then
       Option.bind (parseGroup s False pos1 [[]] 0) (\<lambda>r.
         case r of
           Inl e \<Rightarrow> Some (Inl e)
         | Inr (node, pos2) \<Rightarrow>
            (let (b2, pos3) = eat s pos2 (Some (ch CHR '')'')) in
             if \<not> b2 then Some (Inl (Expected_rparen pos3))
             else let (node', pos4) = assignQuantifier s pos3 node in
               parseGroup s is_root pos4 (append_child chn curr_or node') curr_or))
     else if peak s pos1 0 = Some (ch CHR '')'') then
       (if is_root then Some (Inl (Unexpected (peak s pos1 0) pos1))
        else Some (Inr (ExprNode Group None None None None chn, pos1)))
     else let (b2, pos2) = eat s pos1 (Some (ch CHR ''['')) in
     if b2 then
       Option.bind (parseSet s pos2 False []) (\<lambda>r.
         case r of
           Inl e \<Rightarrow> Some (Inl e)
         | Inr (node, pos3) \<Rightarrow>
            (let (b3, pos4) = eat s pos3 (Some (ch CHR '']'')) in
             if \<not> b3 then Some (Inl (Expected_rbracket pos4))
             else let (node', pos5) = assignQuantifier s pos4 node in
               parseGroup s is_root pos5 (append_child chn curr_or node') curr_or))
     else if peak s pos2 0 = Some BACKSLASH then
       (let (b3, pos3) = eat s pos2 None;
            (node, pos4) = parseChar s pos3;
            (node', pos5) = assignQuantifier s pos4 node
        in parseGroup s is_root pos5 (append_child chn curr_or node') curr_or)
     else if peak s pos2 0 = Some (ch CHR ''.'') then
       (let (node, pos3) = parseAny s pos2;
            (node', pos4) = assignQuantifier s pos3 node
        in parseGroup s is_root pos4 (append_child chn curr_or node') curr_or)
     else if peak s pos2 0 = Some (ch CHR ''|'') then
       (let (b3, pos3) = eat s pos2 (Some (ch CHR ''|''))
        in parseGroup s is_root pos3 (chn @ [[]]) (curr_or + 1))
     else if (case peak s pos2 0 of None \<Rightarrow> True | Some c \<Rightarrow> c \<notin> set SPECIAL_CHARS) then
       (let (node, pos3) = parseChar s pos2;
            (node', pos4) = assignQuantifier s pos3 node
        in parseGroup s is_root pos4 (append_child chn curr_or node') curr_or)
     else Some (Inl (Unexpected (peak s pos2 0) pos2)))"

declare parseSet.simps [code]
declare parseGroup.simps [code]

text \<open>
  \<open>RegularCompiler.__init__\<close>: parse from position 0 as the root, then overwrite the type
  of the returned node with \<open>Root\<close>. \<open>None\<close> stands for a parser that never returns.
\<close>

definition set_type :: "ExprNode \<Rightarrow> NodeType \<Rightarrow> ExprNode" where
  "set_type n t =
     ExprNode t (nvalue n) (quantifier n) (range_start n) (range_end n) (children n)"

definition RegularCompiler :: "pystr \<Rightarrow> (parse_error + ExprNode) option" where
  "RegularCompiler expr_str =
     map_option (map_sum id (\<lambda>(node, pos). set_type node Root))
       (parseGroup expr_str True 0 [[]] 0)"

text \<open>
  \<open>adv s pos r\<close>: a result \<open>r\<close> of a parsing method started at \<open>pos\<close> is an error, or a node
  with a cursor that has not moved back and is within the input.
\<close>

definition adv :: "pystr \<Rightarrow> nat \<Rightarrow> (parse_error + ExprNode \<times> nat) \<Rightarrow> bool" where
  "adv s pos r = (case r of Inl e \<Rightarrow> True | Inr (node, p) \<Rightarrow> pos \<le> p \<and> p \<le> length s)"

section \<open>NFA.py: Thompson construction\<close>

text \<open>
  A Python \<open>set\<close> is modelled as a duplicate-free list; the order of the list stands for the
  iteration order of the set, which Python leaves unspecified. \<open>set_add\<close> is \<open>set.add\<close> and
  \<open>set_union\<close> is \<open>|=\<close>. A \<open>dict\<close> is an association list in insertion order, updated
  by \<open>AList.update\<close> (an existing key keeps its place, a new key goes last).
\<close>

definition set_add :: "'a list \<Rightarrow> 'a \<Rightarrow> 'a list" where
  "set_add xs x = (if x \<in> set xs then xs else xs @ [x])"

definition set_union :: "'a list \<Rightarrow> 'a list \<Rightarrow> 'a list" where
  "set_union xs ys = fold (\<lambda>y acc. set_add acc y) ys xs"

datatype py_error = IndexError | KeyError | PyTypeError | AttributeError

text \<open>
  A transition label is the dictionary key of \<open>State.transitions\<close>: a string, or \<open>None\<close>
  when the parser produced a \<open>Char\<close> node without a value.
\<close>

type_synonym label = "pystr option"

text \<open>
  \<open>State\<close>: a state object is referred to by its index in the \<open>states\<close> list of the NFA
  that owns it; \<open>sid\<close> is its \<open>id\<close> field.
\<close>

record State =
  sid :: nat
  is_final :: bool
  transitions :: "(label \<times> nat list) list"
  epsilon_transitions :: "nat list"

record NFA =
  states :: "State list"
  start_state :: "nat option"
  final_state :: "nat option"
  next_state_id :: nat
  final_states :: "nat list"

definition empty_NFA :: NFA where
  "empty_NFA = \<lparr>states = [], start_state = None, final_state = None, next_state_id = 0,
                 final_states = []\<rparr>"

definition add_transition :: "State \<Rightarrow> label \<Rightarrow> nat \<Rightarrow> State" where
  "add_transition st char target =
     st\<lparr>transitions :=
          AList.update char
            (set_add (case map_of (transitions st) char of None \<Rightarrow> [] | Some ts \<Rightarrow> ts) target)
            (transitions st)\<rparr>"

definition add_epsilon_transition :: "State \<Rightarrow> nat \<Rightarrow> State" where
  "add_epsilon_transition st target =
     st\<lparr>epsilon_transitions := set_add (epsilon_transitions st) target\<rparr>"

definition upd_state :: "NFA \<Rightarrow> nat \<Rightarrow> (State \<Rightarrow> State) \<Rightarrow> NFA" where
  "upd_state self i f = self\<lparr>states := (states self)[i := f (states self ! i)]\<rparr>"

definition create_state :: "NFA \<Rightarrow> bool \<Rightarrow> nat \<times> NFA" where
  "create_state self fin =
     (let i = length (states self);
          st = \<lparr>sid = next_state_id self, is_final = fin, transitions = [],
                epsilon_transitions = []\<rparr>;
          self1 = self\<lparr>states := states self @ [st], next_state_id := next_state_id self + 1\<rparr>
      in (i, if fin then self1\<lparr>final_state := Some i,
                               final_states := set_add (final_states self1) i\<rparr>
             else self1))"

definition ESCAPED_DOT :: pystr where
  "ESCAPED_DOT = [BACKSLASH, BACKSLASH, ch CHR ''.'']"

definition build_basic_node_char :: "NFA \<Rightarrow> ExprNode \<Rightarrow> NFA" where
  "build_basic_node_char self node =
     (let (start, self1) = create_state self False;
          (end, self2) = create_state self1 True;
          self3 = (if nvalue node = Some (py ''.'')
                   then upd_state self2 start (\<lambda>st. add_transition st (Some ESCAPED_DOT) end)
                   else upd_state self2 start (\<lambda>st. add_transition st (nvalue node) end))
      in self3\<lparr>start_state := Some start, final_state := Some end\<rparr>)"

definition build_basic_node_any :: "NFA \<Rightarrow> ExprNode \<Rightarrow> NFA" where
  "build_basic_node_any self node =
     (let (start, self1) = create_state self False;
          (end, self2) = create_state self1 True;
          self3 = upd_state self2 start (\<lambda>st. add_transition st (Some (py ''.'')) end)
      in self3\<lparr>start_state := Some start, final_state := Some end\<rparr>)"

definition build_basic_node_range :: "NFA \<Rightarrow> ExprNode \<Rightarrow> py_error + NFA" where
  "build_basic_node_range self node =
     (let (start, self1) = create_state self False;
          (end, self2) = create_state self1 True
      in case range_start node of
           None \<Rightarrow> Inl KeyError
         | Some a \<Rightarrow>
            (case range_end node of
               None \<Rightarrow> Inl KeyError
             | Some b \<Rightarrow>
                (let self3 = upd_state self2 start
                               (\<lambda>st. add_transition st (Some ([a] @ py '' - '' @ [b])) end)
                 in Inr (self3\<lparr>start_state := Some start, final_state := Some end\<rparr>))))"

definition epsilon_fragment :: "NFA \<Rightarrow> NFA" where
  "epsilon_fragment self =
     (let (start, self1) = create_state self False;
          (end, self2) = create_state self1 True;
          self3 = upd_state self2 start (\<lambda>st. add_epsilon_transition st end)
      in self3\<lparr>start_state := Some start, final_state := Some end\<rparr>)"

text \<open>
  Copying the transitions of \<open>old_state\<close> onto \<open>new_state\<close> through \<open>state_map\<close>: the two
  nested \<open>for\<close> loops of \<open>_build_concatenation\<close> and \<open>_build_alternation\<close>. \<open>state_map\<close> is a
  partial map on the indices of the old states; \<open>if target in state_map\<close> is \<open>m t \<noteq> None\<close>.
\<close>

definition copy_transitions :: "(nat \<rightharpoonup> nat) \<Rightarrow> State \<Rightarrow> State \<Rightarrow> State" where
  "copy_transitions m old_state new_state =
     (let st1 = fold (\<lambda>(char, targets) st.
                   fold (\<lambda>target st. case m target of None \<Rightarrow> st
                                        | Some t \<Rightarrow> add_transition st char t) targets st)
                 (transitions old_state) new_state
      in fold (\<lambda>target st. case m target of None \<Rightarrow> st | Some t \<Rightarrow> add_epsilon_transition st t)
           (epsilon_transitions old_state) st1)"

definition apply_quantifier :: "NFA \<Rightarrow> pystr \<Rightarrow> NFA" where
  "apply_quantifier self q =
     (case start_state self of None \<Rightarrow> self | Some original_start \<Rightarrow>
      case final_state self of None \<Rightarrow> self | Some original_final \<Rightarrow>
       (let (new_start, self1) = create_state self False;
            (new_final, self2) = create_state self1 True;
            self3 = upd_state self2 original_final (\<lambda>st. st\<lparr>is_final := False\<rparr>);
            self4 =
              (if q = py ''?'' then
                 upd_state
                   (upd_state self3 new_start
                      (\<lambda>st. add_epsilon_transition (add_epsilon_transition st original_start) new_final))
                   original_final (\<lambda>st. add_epsilon_transition st new_final)
               else if q = py ''*'' then
                 upd_state
                   (upd_state self3 new_start
                      (\<lambda>st. add_epsilon_transition (add_epsilon_transition st original_start) new_final))
                   original_final
                   (\<lambda>st. add_epsilon_transition (add_epsilon_transition st new_start) new_final)
               else if q = py ''+'' then
                 upd_state
                   (upd_state self3 new_start (\<lambda>st. add_epsilon_transition st original_start))
                   original_final
                   (\<lambda>st. add_epsilon_transition (add_epsilon_transition st original_start) new_final)
               else self3)
        in self4\<lparr>start_state := Some new_start, final_state := Some new_final,
                  final_states := filter (\<lambda>i. is_final (states self4 ! i)) [0..<length (states self4)]\<rparr>))"

text \<open>
  \<open>_build_concatenation\<close> after the sub-NFAs are built. The old state \<open>j\<close> of the \<open>i\<close>-th
  sub-NFA is the key \<open>(i, j)\<close> of \<open>state_map\<close>; its copy is appended to \<open>self.states\<close> at
  index \<open>sub_offset self sub_nfas i + j\<close>. \<open>state_map[None]\<close> raises \<open>KeyError\<close>.
\<close>

definition sub_offset :: "NFA \<Rightarrow> NFA list \<Rightarrow> nat \<Rightarrow> nat" where
  "sub_offset self sub_nfas i =
     length (states self) + sum_list (map (\<lambda>n. length (states n)) (take i sub_nfas))"

definition sub_state_map :: "NFA \<Rightarrow> NFA list \<Rightarrow> nat \<Rightarrow> nat \<rightharpoonup> nat" where
  "sub_state_map self sub_nfas i =
     (\<lambda>j. if j < length (states (sub_nfas ! i)) then Some (sub_offset self sub_nfas i + j) else None)"

definition copied_states :: "NFA \<Rightarrow> NFA list \<Rightarrow> State list" where
  "copied_states self sub_nfas =
     concat (map (\<lambda>i.
        map (\<lambda>j.
           copy_transitions (sub_state_map self sub_nfas i) (states (sub_nfas ! i) ! j)
             \<lparr>sid = next_state_id self + (sub_offset self sub_nfas i - length (states self)) + j,
              is_final = is_final (states (sub_nfas ! i) ! j),
              transitions = [], epsilon_transitions = []\<rparr>)
          [0..<length (states (sub_nfas ! i))])
       [0..<length sub_nfas])"

fun connect_sub_nfas :: "NFA \<Rightarrow> NFA list \<Rightarrow> nat list \<Rightarrow> State list \<Rightarrow> py_error + State list" where
  "connect_sub_nfas self sub_nfas [] sts = Inr sts"
| "connect_sub_nfas self sub_nfas (i # rest) sts =
     (case final_state (sub_nfas ! i) of
        None \<Rightarrow> Inl KeyError
      | Some old_final \<Rightarrow>
         (case start_state (sub_nfas ! (i + 1)) of
            None \<Rightarrow> Inl KeyError
          | Some old_next_start \<Rightarrow>
             (let f = sub_offset self sub_nfas i + old_final;
                  n = sub_offset self sub_nfas (i + 1) + old_next_start
              in connect_sub_nfas self sub_nfas rest
                   (sts[f := add_epsilon_transition ((sts ! f)\<lparr>is_final := False\<rparr>) n]))))"

definition concat_sub_nfas :: "NFA \<Rightarrow> NFA list \<Rightarrow> py_error + NFA" where
  "concat_sub_nfas self sub_nfas =
     (if sub_nfas = [] then Inr self
      else
        let sts = states self @ copied_states self sub_nfas;
            total = sum_list (map (\<lambda>n. length (states n)) sub_nfas)
        in case start_state (sub_nfas ! 0) of
             None \<Rightarrow> Inl KeyError
           | Some s0 \<Rightarrow>
              (case connect_sub_nfas self sub_nfas [0..<length sub_nfas - 1] sts of
                 Inl e \<Rightarrow> Inl e
               | Inr sts' \<Rightarrow>
                  (case final_state (last sub_nfas) of
                     None \<Rightarrow> Inl KeyError
                   | Some fl \<Rightarrow>
                      Inr (self\<lparr>states := sts',
                                next_state_id := next_state_id self + total,
                                start_state := Some (sub_offset self sub_nfas 0 + s0),
                                final_state :=
                                  Some (sub_offset self sub_nfas (length sub_nfas - 1) + fl),
                                final_states :=
                                  concat (map (\<lambda>i.
                                     map (\<lambda>j. sub_offset self sub_nfas i + j)
                                       (filter (\<lambda>j. is_final (states (sub_nfas ! i) ! j))
                                          [0..<length (states (sub_nfas ! i))]))
                                    [0..<length sub_nfas])\<rparr>))))"

text \<open>
  The body of the \<open>for alternative in alternatives\<close> loop of \<open>_build_alternation\<close> for a
  non-empty alternative whose sub-NFA \<open>sub_nfa\<close> is built.
\<close>

definition add_alternative :: "NFA \<Rightarrow> nat \<Rightarrow> nat \<Rightarrow> NFA \<Rightarrow> NFA" where
  "add_alternative self start end sub_nfa =
     (case start_state sub_nfa of
        None \<Rightarrow> self
      | Some sub_start \<Rightarrow>
         (let base = length (states self);
              m = (\<lambda>j. if j < length (states sub_nfa) then Some (base + j) else None);
              self1 = fold (\<lambda>st s. snd (create_state s (is_final st))) (states sub_nfa) self;
              self2 = fold (\<lambda>j s. upd_state s (base + j)
                                     (copy_transitions m (states sub_nfa ! j)))
                        [0..<length (states sub_nfa)] self1;
              self3 = upd_state self2 start (\<lambda>st. add_epsilon_transition st (base + sub_start))
          in fold (\<lambda>j s. if is_final (states sub_nfa ! j)
                          then upd_state s (base + j)
                                 (\<lambda>st. add_epsilon_transition (st\<lparr>is_final := False\<rparr>) end)
                          else s)
               [0..<length (states sub_nfa)] self3))"

text \<open>
  \<open>NFA(node)\<close> is \<open>build_nfa empty_NFA node\<close>. \<open>build_sub_nfas\<close> is the loop
  \<open>for node in nodes: sub_nfas.append(NFA(node))\<close>, \<open>build_alternatives\<close> the loop over the
  alternatives, and \<open>_build_basic_node_group\<close> and \<open>_build_basic_node_set\<close> are inlined in
  \<open>build_nfa\<close>.
\<close>

fun build_nfa :: "NFA \<Rightarrow> ExprNode \<Rightarrow> py_error + NFA"
  and build_concatenation :: "NFA \<Rightarrow> ExprNode list \<Rightarrow> py_error + NFA"
  and build_sub_nfas :: "ExprNode list \<Rightarrow> py_error + NFA list"
  and build_alternation :: "NFA \<Rightarrow> ExprNode list list \<Rightarrow> py_error + NFA"
  and build_alternatives :: "NFA \<Rightarrow> nat \<Rightarrow> nat \<Rightarrow> ExprNode list list \<Rightarrow> py_error + NFA"
where
  "build_nfa self (ExprNode t v q rs re chn) =
     (case
        (if t = CharN then Inr (build_basic_node_char self (ExprNode t v q rs re chn))
         else if t = Any then Inr (build_basic_node_any self (ExprNode t v q rs re chn))
         else if t = CharacterSet then build_alternation self chn
         else if t = RangeN then build_basic_node_range self (ExprNode t v q rs re chn)
         else if t = Root \<or> t = Group then
           (case chn of
              [] \<Rightarrow> Inr (epsilon_fragment self)
            | c0 # cs \<Rightarrow>
               if c0 = [] then Inr (epsilon_fragment self)
               else if cs \<noteq> [] then build_alternation self (c0 # cs)
               else build_concatenation self c0)
         else Inr self)
      of Inl e \<Rightarrow> Inl e
       | Inr self1 \<Rightarrow>
          (case q of None \<Rightarrow> Inr self1 | Some qq \<Rightarrow> Inr (apply_quantifier self1 qq)))"
| "build_concatenation self nodes =
     (if nodes = [] then Inr (epsilon_fragment self)
      else case build_sub_nfas nodes of
             Inl e \<Rightarrow> Inl e
           | Inr sub_nfas \<Rightarrow> concat_sub_nfas self sub_nfas)"
| "build_sub_nfas [] = Inr []"
| "build_sub_nfas (node # nodes) =
     (case build_nfa empty_NFA node of
        Inl e \<Rightarrow> Inl e
      | Inr sub_nfa \<Rightarrow>
         (case build_sub_nfas nodes of
            Inl e \<Rightarrow> Inl e
          | Inr rest \<Rightarrow> Inr (sub_nfa # rest)))"
| "build_alternation self alternatives =
     (let (start, self1) = create_state self False;
          (end, self2) = create_state self1 True
      in case build_alternatives self2 start end alternatives of
           Inl e \<Rightarrow> Inl e
         | Inr self3 \<Rightarrow> Inr (self3\<lparr>start_state := Some start, final_state := Some end\<rparr>))"
| "build_alternatives self start end [] = Inr self"
| "build_alternatives self start end (alternative # rest) =
     (if alternative = [] then
        build_alternatives (upd_state self start (\<lambda>st. add_epsilon_transition st end)) start end rest
      else case build_concatenation empty_NFA alternative of
             Inl e \<Rightarrow> Inl e
           | Inr sub_nfa \<Rightarrow> build_alternatives (add_alternative self start end sub_nfa) start end rest)"

definition NFA_of :: "ExprNode \<Rightarrow> py_error + NFA" where
  "NFA_of node = build_nfa empty_NFA node"

section \<open>NFA.py: matching\<close>

text \<open>
  \<open>_epsilon_closure\<close>: \<open>all_states\<close> and \<open>stack\<close> are the loop variables of the \<open>while\<close>
  loop; \<open>stack.pop()\<close> takes the last element. \<open>None\<close> stands for a loop that never ends.
\<close>

partial_function (option) epsilon_closure_loop :: "NFA \<Rightarrow> nat list \<Rightarrow> nat list \<Rightarrow> nat list option" where
  "epsilon_closure_loop self all_states stack =
     (if stack = [] then Some all_states
      else
        let state = last stack;
            (all_states', stack') =
               fold (\<lambda>target (a, st).
                       if target \<notin> set a then (set_add a target, st @ [target]) else (a, st))
                 (epsilon_transitions (states self ! state)) (all_states, butlast stack)
        in epsilon_closure_loop self all_states' stack')"

declare epsilon_closure_loop.simps [code]

definition epsilon_closure :: "NFA \<Rightarrow> nat list \<Rightarrow> nat list option" where
  "epsilon_closure self sts = epsilon_closure_loop self sts sts"

text \<open>\<open>str.split(sep)\<close> for a non-empty separator: the pieces between the occurrences of \<open>sep\<close>, left to right.\<close>

function split_on :: "'a list \<Rightarrow> 'a list \<Rightarrow> 'a list \<Rightarrow> 'a list list" where
  "split_on sep acc [] = [acc]"
| "split_on sep acc (x # xs) =
     (if sep \<noteq> [] \<and> take (length sep) (x # xs) = sep
      then acc # split_on sep [] (drop (length sep) (x # xs))
      else split_on sep (acc @ [x]) xs)"
  by pat_completeness auto
termination
  by (relation "measure (\<lambda>(sep, acc, xs). length xs)") auto

definition py_str :: "label \<Rightarrow> pystr" where
  "py_str l = (case l of None \<Rightarrow> py ''None'' | Some s \<Rightarrow> s)"

text \<open>
  The condition of \<open>match\<close> that decides whether the transition label \<open>transition_char\<close>
  is taken on the input character \<open>char\<close>. \<open>ord\<close> of a string that is not one character
  long raises \<open>TypeError\<close>; the chained comparison reads \<open>split[1]\<close> only when the first
  comparison holds.
\<close>

definition label_matches :: "label \<Rightarrow> pychar \<Rightarrow> py_error + bool" where
  "label_matches transition_char char =
     (let split = split_on (py '' - '') [] (py_str transition_char) in
      if transition_char = Some (py ''.'') \<or> transition_char = Some [char]
         \<or> (char = ch CHR ''.'' \<and> transition_char = Some ESCAPED_DOT)
      then Inr True
      else if length split = 2 then
        (case split ! 0 of
           [a] \<Rightarrow>
             if a \<le> char then
               (case split ! 1 of [b] \<Rightarrow> Inr (char \<le> b) | _ \<Rightarrow> Inl PyTypeError)
             else Inr False
         | _ \<Rightarrow> Inl PyTypeError)
      else Inr False)"

text \<open>The inner loops of \<open>match\<close> for one input character: the set \<open>next_states\<close>.\<close>

fun take_transitions :: "(label \<times> nat list) list \<Rightarrow> pychar \<Rightarrow> nat list \<Rightarrow> py_error + nat list" where
  "take_transitions [] char next_states = Inr next_states"
| "take_transitions ((transition_char, targets) # rest) char next_states =
     (case label_matches transition_char char of
        Inl e \<Rightarrow> Inl e
      | Inr b \<Rightarrow>
         take_transitions rest char (if b then set_union next_states targets else next_states))"

fun next_states_of :: "NFA \<Rightarrow> nat list \<Rightarrow> pychar \<Rightarrow> nat list \<Rightarrow> py_error + nat list" where
  "next_states_of self [] char next_states = Inr next_states"
| "next_states_of self (state # rest) char next_states =
     (case take_transitions (transitions (states self ! state)) char next_states of
        Inl e \<Rightarrow> Inl e
      | Inr next_states' \<Rightarrow> next_states_of self rest char next_states')"

fun match_loop :: "NFA \<Rightarrow> nat list \<Rightarrow> pystr \<Rightarrow> (py_error + bool) option" where
  "match_loop self current_states [] =
     Some (Inr (list_ex (\<lambda>state. is_final (states self ! state)) current_states))"
| "match_loop self current_states (char # rest) =
     (case next_states_of self current_states char [] of
        Inl e \<Rightarrow> Some (Inl e)
      | Inr next_states \<Rightarrow>
         (case epsilon_closure self next_states of
            None \<Rightarrow> None
          | Some current_states' \<Rightarrow>
             if current_states' = [] then Some (Inr False)
             else match_loop self current_states' rest))"

definition match :: "NFA \<Rightarrow> pystr \<Rightarrow> (py_error + bool) option" where
  "match self input_string =
     (case start_state self of
        None \<Rightarrow> Some (Inr False)
      | Some start \<Rightarrow>
         (case epsilon_closure self [start] of
            None \<Rightarrow> None
          | Some current_states \<Rightarrow> match_loop self current_states input_string))"

text \<open>
  \<open>regex_to_nfa\<close> and the module-level \<open>match\<close>: parse, build, run. \<open>NFA.py\<close> names the
  parser class \<open>RegexCompiler\<close>; the class that \<open>RegexCompiler.py\<close> defines is
  \<open>RegularCompiler\<close>, and that is the one used here.
\<close>

datatype 'a outcome = SyntaxError parse_error | PyError py_error | Result 'a

definition regex_to_nfa :: "pystr \<Rightarrow> NFA outcome option" where
  "regex_to_nfa regex_str =
     (case RegularCompiler regex_str of
        None \<Rightarrow> None
      | Some (Inl e) \<Rightarrow> Some (SyntaxError e)
      | Some (Inr ast) \<Rightarrow>
         (case NFA_of ast of Inl e \<Rightarrow> Some (PyError e) | Inr nfa \<Rightarrow> Some (Result nfa)))"

definition regex_match :: "pystr \<Rightarrow> pystr \<Rightarrow> bool outcome option" where
  "regex_match regex_str test_str =
     (case regex_to_nfa regex_str of
        None \<Rightarrow> None
      | Some (SyntaxError e) \<Rightarrow> Some (SyntaxError e)
      | Some (PyError e) \<Rightarrow> Some (PyError e)
      | Some (Result nfa) \<Rightarrow>
         (case match nfa test_str of
            None \<Rightarrow> None
          | Some (Inl e) \<Rightarrow> Some (PyError e)
          | Some (Inr b) \<Rightarrow> Some (Result b)))"

section \<open>NFA.py: export to JSON\<close>

text \<open>
  A state name \<open>f"S{id}"\<close> is modelled as the number \<open>id\<close>: the loader reads the number back
  with \<open>int(name[1:])\<close>, and no name of this form equals the key \<open>"startingState"\<close>. A
  state's JSON object is a dictionary from keys to a boolean, a name or a list of names;
  the whole document is the optional \<open>"startingState"\<close> entry and the dictionary of the
  states. The type of the keys is a parameter: \<open>to_json\<close> builds a Python dictionary whose
  keys are labels (possibly \<open>None\<close>), the file holds strings.
\<close>

type_synonym name = nat

datatype jvalue = JBool bool | JName name | JNames "name list"

record 'k json =
  startingState :: "name option"
  jstates :: "(name \<times> ('k \<times> jvalue) list) list"

definition EPSILON :: pystr where
  "EPSILON = [949]"

definition IS_TERMINATING :: pystr where
  "IS_TERMINATING = py ''isTerminatingState''"

definition state_name :: "NFA \<Rightarrow> nat \<Rightarrow> name" where
  "state_name self i = sid (states self ! i)"

definition regular_entries :: "NFA \<Rightarrow> State \<Rightarrow> (label \<times> jvalue) list" where
  "regular_entries self st =
     fold (\<lambda>(char, targets) state_data.
             AList.update char
               (if length targets = 1 then JName (state_name self (hd targets))
                else JNames (map (state_name self) targets))
               state_data)
       (transitions st) [(Some IS_TERMINATING, JBool (is_final st))]"

fun epsilon_entries ::
  "NFA \<Rightarrow> nat list \<Rightarrow> (label \<times> jvalue) list \<Rightarrow> py_error + (label \<times> jvalue) list" where
  "epsilon_entries self [] state_data = Inr state_data"
| "epsilon_entries self (target # rest) state_data =
     (let state_data1 = (if map_of state_data (Some EPSILON) = None
                         then AList.update (Some EPSILON) (JNames []) state_data
                         else state_data)
      in case map_of state_data1 (Some EPSILON) of
           Some (JNames l) \<Rightarrow>
             epsilon_entries self rest
               (AList.update (Some EPSILON) (JNames (l @ [state_name self target])) state_data1)
         | _ \<Rightarrow> Inl AttributeError)"

fun to_json_states ::
  "NFA \<Rightarrow> State list \<Rightarrow> (name \<times> (label \<times> jvalue) list) list
     \<Rightarrow> py_error + (name \<times> (label \<times> jvalue) list) list" where
  "to_json_states self [] result = Inr result"
| "to_json_states self (st # rest) result =
     (case epsilon_entries self (epsilon_transitions st) (regular_entries self st) of
        Inl e \<Rightarrow> Inl e
      | Inr state_data \<Rightarrow> to_json_states self rest (AList.update (sid st) state_data result))"

definition to_json :: "NFA \<Rightarrow> py_error + label json" where
  "to_json self =
     (case to_json_states self (states self) [] of
        Inl e \<Rightarrow> Inl e
      | Inr result \<Rightarrow>
          Inr \<lparr>startingState = map_option (state_name self) (start_state self),
               jstates = result\<rparr>)"

text \<open>
  \<open>save_json\<close> followed by \<open>json.load\<close>: \<open>json.dump\<close> writes the key \<open>None\<close> as \<open>"null"\<close>, and
  the loader rebuilds each dictionary in the order of the file.
\<close>

definition json_key :: "label \<Rightarrow> pystr" where
  "json_key k = (case k of None \<Rightarrow> py ''null'' | Some s \<Rightarrow> s)"

definition json_file :: "label json \<Rightarrow> pystr json" where
  "json_file j =
     \<lparr>startingState = startingState j,
      jstates = map (\<lambda>(n, d). (n, fold (\<lambda>(k, v) acc. AList.update (json_key k) v acc) d []))
                  (jstates j)\<rparr>"

section \<open>DFA.py: loading the NFA\<close>

text \<open>
  \<open>DFA.py\<close> has its own \<open>State\<close> class (\<open>id\<close>, \<open>is_final\<close>, \<open>transitions\<close>; epsilon
  transitions are the transitions under the key \<open>"\<epsilon>"\<close>), here \<open>LState\<close>. The loader creates
  one object per entry of the file, in \<open>nfa.states\<close>, and one more object for
  \<open>nfa.start_state\<close>: \<open>State(data["startingState"], False)\<close> is a new object with the name
  of the start state and no transitions, not the element of \<open>nfa.states\<close> with that name.
  State objects have no \<open>__eq__\<close>, so they are compared by identity: \<open>Start\<close> is the object
  in \<open>nfa.start_state\<close> and \<open>St i\<close> the object \<open>nfa.states[i]\<close>.
\<close>

datatype sref = Start | St nat

record LState =
  lid :: name
  l_is_final :: bool
  l_transitions :: "(pystr \<times> sref list) list"

record LNFA =
  l_states :: "LState list"
  l_start_state :: LState
  l_final_state :: "sref option"

definition l_add_transition :: "LState \<Rightarrow> pystr \<Rightarrow> sref \<Rightarrow> LState" where
  "l_add_transition st action target =
     st\<lparr>l_transitions :=
          AList.update action
            (set_add (case map_of (l_transitions st) action of None \<Rightarrow> [] | Some ts \<Rightarrow> ts) target)
            (l_transitions st)\<rparr>"

definition truthy :: "jvalue \<Rightarrow> bool" where
  "truthy v = (case v of JBool b \<Rightarrow> b | JName n \<Rightarrow> True | JNames l \<Rightarrow> l \<noteq> [])"

text \<open>First loop of \<open>__load_NFA_json\<close>: one state per entry; the last final one is \<open>nfa.final_state\<close>.\<close>

fun load_states ::
  "(name \<times> (pystr \<times> jvalue) list) list \<Rightarrow> LState list \<times> sref option
     \<Rightarrow> py_error + LState list \<times> sref option" where
  "load_states [] acc = Inr acc"
| "load_states ((sname, state_data) # rest) (sts, fin) =
     (case map_of state_data IS_TERMINATING of
        None \<Rightarrow> Inl KeyError
      | Some v \<Rightarrow>
          load_states rest
            (sts @ [\<lparr>lid = sname, l_is_final = truthy v, l_transitions = []\<rparr>],
             if truthy v then Some (St (length sts)) else fin))"

text \<open>
  Second loop: the transitions and the list \<open>actions\<close>. \<open>self.nfa.states[int(x[1:])]\<close> raises
  \<open>IndexError\<close> when the number is not an index of the list.
\<close>

fun load_targets :: "LState list \<Rightarrow> nat \<Rightarrow> pystr \<Rightarrow> name list \<Rightarrow> py_error + LState list" where
  "load_targets sts cur action [] = Inr sts"
| "load_targets sts cur action (target # rest) =
     (if target \<ge> length sts then Inl IndexError
      else load_targets (sts[cur := l_add_transition (sts ! cur) action (St target)]) cur action rest)"

fun load_entries ::
  "nat \<Rightarrow> (pystr \<times> jvalue) list \<Rightarrow> LState list \<times> pystr list \<Rightarrow> py_error + LState list \<times> pystr list" where
  "load_entries cur [] acc = Inr acc"
| "load_entries cur ((action, targets) # rest) (sts, acts) =
     (if action = IS_TERMINATING then load_entries cur rest (sts, acts)
      else case (case targets of
                   JNames l \<Rightarrow> load_targets sts cur action l
                 | JName t \<Rightarrow> load_targets sts cur action [t]
                 | JBool b \<Rightarrow> Inl PyTypeError) of
             Inl e \<Rightarrow> Inl e
           | Inr sts' \<Rightarrow>
               load_entries cur rest (sts', if action \<noteq> EPSILON then acts @ [action] else acts))"

fun load_transitions ::
  "(name \<times> (pystr \<times> jvalue) list) list \<Rightarrow> LState list \<times> pystr list \<Rightarrow> py_error + LState list \<times> pystr list" where
  "load_transitions [] acc = Inr acc"
| "load_transitions ((sname, state_data) # rest) (sts, acts) =
     (if sname \<ge> length sts then Inl IndexError
      else case load_entries sname state_data (sts, acts) of
             Inl e \<Rightarrow> Inl e
           | Inr acc' \<Rightarrow> load_transitions rest acc')"

definition load_NFA_json :: "pystr json \<Rightarrow> py_error + LNFA \<times> pystr list" where
  "load_NFA_json data =
     (case startingState data of
        None \<Rightarrow> Inl KeyError
      | Some s \<Rightarrow>
         (case load_states (jstates data) ([], None) of
            Inl e \<Rightarrow> Inl e
          | Inr (sts, fin) \<Rightarrow>
             (case load_transitions (jstates data) (sts, []) of
                Inl e \<Rightarrow> Inl e
              | Inr (sts', acts) \<Rightarrow>
                  Inr (\<lparr>l_states = sts',
                        l_start_state = \<lparr>lid = s, l_is_final = False, l_transitions = []\<rparr>,
                        l_final_state = fin\<rparr>, acts))))"

section \<open>DFA.py: subset construction\<close>

definition sref_id :: "LNFA \<Rightarrow> sref \<Rightarrow> name" where
  "sref_id nfa r = (case r of Start \<Rightarrow> lid (l_start_state nfa) | St i \<Rightarrow> lid (l_states nfa ! i))"

definition transitions_of :: "LNFA \<Rightarrow> sref \<Rightarrow> (pystr \<times> sref list) list" where
  "transitions_of nfa r =
     (case r of Start \<Rightarrow> l_transitions (l_start_state nfa)
              | St i \<Rightarrow> l_transitions (l_states nfa ! i))"

text \<open>
  \<open>DFA_State\<close>: the set of NFA state objects, the \<open>id\<close> string and \<open>is_final\<close>. The \<open>id\<close> is
  \<open>" ".join\<close> over the set \<open>{s.id for s in self.states}\<close>, in the iteration order of that
  set; it is modelled as the list of the joined names (two such strings are equal exactly
  when the lists are). \<open>__eq__\<close> and \<open>__hash__\<close> look at \<open>id\<close> only.

  The order in which a Python set of strings is iterated is not fixed by the program: it
  is decided by the hashes of the strings, which differ from one process to the next, and
  follows the order of insertion only where two strings fall on the same slot of the
  table. It is therefore a parameter of the model: \<open>io\<close> maps the sequence in which the
  distinct names were inserted into the set to the sequence in which the set yields them.
  Every function that builds a \<open>DFA_State\<close> takes \<open>io\<close>. A set of state objects is written
  as the list of its members (\<open>d_states\<close>); \<open>inserted_ids\<close> is the sequence in which their
  names enter the set of names, and the key is \<open>io\<close> of that sequence.
\<close>

type_synonym iter_order = "name list \<Rightarrow> name list"

record DFA_State =
  d_states :: "sref list"
  d_id :: "name list"
  d_is_final :: bool

definition inserted_ids :: "LNFA \<Rightarrow> sref list \<Rightarrow> name list" where
  "inserted_ids nfa sts = fold (\<lambda>s ids. set_add ids (sref_id nfa s)) sts []"

definition set_to_string :: "iter_order \<Rightarrow> LNFA \<Rightarrow> sref list \<Rightarrow> name list" where
  "set_to_string io nfa sts = io (inserted_ids nfa sts)"

definition new_DFA_State :: "iter_order \<Rightarrow> LNFA \<Rightarrow> sref list \<Rightarrow> bool \<Rightarrow> DFA_State" where
  "new_DFA_State io nfa nfa_states fin =
     \<lparr>d_states = nfa_states, d_id = set_to_string io nfa nfa_states, d_is_final = fin\<rparr>"

definition dfa_state_eq :: "DFA_State \<Rightarrow> DFA_State \<Rightarrow> bool" where
  "dfa_state_eq a b = (d_id a = d_id b)"

text \<open>\<open>set.add\<close> on a set of \<open>DFA_State\<close>: an element equal to the new one keeps its place.\<close>

definition dfa_set_add :: "DFA_State list \<Rightarrow> DFA_State \<Rightarrow> DFA_State list" where
  "dfa_set_add xs x = (if list_ex (\<lambda>y. dfa_state_eq y x) xs then xs else xs @ [x])"

record DFA =
  dfa_nfa :: LNFA
  dfa_states :: "DFA_State list"
  dfa_start_state :: "DFA_State option"
  dfa_final_states :: "DFA_State list"
  actions :: "pystr list"
  dfa_transitions :: "(DFA_State \<times> DFA_State \<times> pystr) list"

text \<open>
  \<open>__epsilon_closure\<close>: the popped state is replaced by \<open>self.nfa.states[int(state.id[1:])]\<close>
  before its transitions are read, so the closure of \<open>Start\<close> follows the epsilon
  transitions of the list element with the same name. \<open>all_states\<close> keeps the object that
  was pushed. \<open>push_epsilon_targets\<close> is the pair of \<open>for\<close> loops over the transitions of the
  popped state, acting on \<open>(all_states, stack)\<close>.
\<close>

definition push_epsilon_targets ::
  "(pystr \<times> sref list) list \<Rightarrow> sref list \<times> sref list \<Rightarrow> sref list \<times> sref list" where
  "push_epsilon_targets entries acc =
     fold (\<lambda>(action, targets) acc.
             fold (\<lambda>target (a, st).
                     if target \<notin> set a \<and> action = EPSILON
                     then (set_add a target, st @ [target]) else (a, st))
               targets acc)
       entries acc"

partial_function (option) dfa_epsilon_closure_loop ::
  "LNFA \<Rightarrow> sref list \<Rightarrow> sref list \<Rightarrow> (py_error + sref list) option" where
  "dfa_epsilon_closure_loop nfa all_states stack =
     (if stack = [] then Some (Inr all_states)
      else
        let i = sref_id nfa (last stack) in
        if i \<ge> length (l_states nfa) then Some (Inl IndexError)
        else
          let (all_states', stack') =
                push_epsilon_targets (l_transitions (l_states nfa ! i)) (all_states, butlast stack)
          in dfa_epsilon_closure_loop nfa all_states' stack')"

declare dfa_epsilon_closure_loop.simps [code]

definition dfa_epsilon_closure :: "LNFA \<Rightarrow> sref \<Rightarrow> (py_error + sref list) option" where
  "dfa_epsilon_closure nfa state = dfa_epsilon_closure_loop nfa [state] [state]"

text \<open>
  \<open>__get_reachable_states\<close>. \<open>curr_reachable_states\<close> is the set object stored in
  \<open>nfa_state.transitions[action]\<close>, and \<open>curr_reachable_states |= next_reachable_states\<close>
  updates that object in place: the function returns the NFA with the stored set
  replaced, next to \<open>reachable_states\<close>.
\<close>

fun closure_of_all :: "LNFA \<Rightarrow> sref list \<Rightarrow> sref list \<Rightarrow> (py_error + sref list) option" where
  "closure_of_all nfa [] next_reachable_states = Some (Inr next_reachable_states)"
| "closure_of_all nfa (next_state # rest) next_reachable_states =
     (case dfa_epsilon_closure nfa next_state of
        None \<Rightarrow> None
      | Some (Inl e) \<Rightarrow> Some (Inl e)
      | Some (Inr c) \<Rightarrow> closure_of_all nfa rest (set_union next_reachable_states c))"

definition store_transitions :: "LNFA \<Rightarrow> sref \<Rightarrow> pystr \<Rightarrow> sref list \<Rightarrow> LNFA" where
  "store_transitions nfa r action targets =
     (case r of
        Start \<Rightarrow>
          nfa\<lparr>l_start_state :=
                (l_start_state nfa)\<lparr>l_transitions :=
                   AList.update action targets (l_transitions (l_start_state nfa))\<rparr>\<rparr>
      | St i \<Rightarrow>
          nfa\<lparr>l_states :=
                (l_states nfa)[i := (l_states nfa ! i)\<lparr>l_transitions :=
                   AList.update action targets (l_transitions (l_states nfa ! i))\<rparr>]\<rparr>)"

fun get_reachable_states_loop ::
  "sref list \<Rightarrow> pystr \<Rightarrow> sref list \<times> LNFA \<Rightarrow> (py_error + sref list \<times> LNFA) option" where
  "get_reachable_states_loop [] action acc = Some (Inr acc)"
| "get_reachable_states_loop (nfa_state # rest) action (reachable_states, nfa) =
     (case map_of (transitions_of nfa nfa_state) action of
        None \<Rightarrow> get_reachable_states_loop rest action (reachable_states, nfa)
      | Some curr_reachable_states \<Rightarrow>
         (case closure_of_all nfa curr_reachable_states [] of
            None \<Rightarrow> None
          | Some (Inl e) \<Rightarrow> Some (Inl e)
          | Some (Inr next_reachable_states) \<Rightarrow>
             (let curr' = set_union curr_reachable_states next_reachable_states
              in get_reachable_states_loop rest action
                   (set_union reachable_states curr',
                    store_transitions nfa nfa_state action curr'))))"

definition get_reachable_states ::
  "LNFA \<Rightarrow> DFA_State \<Rightarrow> pystr \<Rightarrow> (py_error + sref list \<times> LNFA) option" where
  "get_reachable_states nfa dfa_state action =
     get_reachable_states_loop (d_states dfa_state) action ([], nfa)"

text \<open>
  \<open>__construct_DFA\<close>: \<open>explore_actions\<close> is the \<open>for action in self.actions\<close> loop for the
  popped state, \<open>construct_DFA_loop\<close> the \<open>while stack\<close> loop. Tuples of the transition list
  are compared with \<open>DFA_State.__eq__\<close>.
\<close>

definition transition_in ::
  "DFA_State \<times> DFA_State \<times> pystr \<Rightarrow> (DFA_State \<times> DFA_State \<times> pystr) list \<Rightarrow> bool" where
  "transition_in t ts =
     list_ex (\<lambda>(a, b, c). dfa_state_eq a (fst t) \<and> dfa_state_eq b (fst (snd t)) \<and> c = snd (snd t)) ts"

fun explore_actions ::
  "iter_order \<Rightarrow> DFA_State \<Rightarrow> pystr list \<Rightarrow> DFA_State list \<times> DFA \<Rightarrow> (py_error + DFA_State list \<times> DFA) option" where
  "explore_actions io curr_dfa_state [] acc = Some (Inr acc)"
| "explore_actions io curr_dfa_state (action # rest) (stack, self) =
     (case get_reachable_states (dfa_nfa self) curr_dfa_state action of
        None \<Rightarrow> None
      | Some (Inl e) \<Rightarrow> Some (Inl e)
      | Some (Inr (reachable, nfa')) \<Rightarrow>
         (let self1 = self\<lparr>dfa_nfa := nfa'\<rparr>;
              new_dfa_state = new_DFA_State io nfa' reachable False
          in if length (d_states new_dfa_state) = 0 then explore_actions io curr_dfa_state rest (stack, self1)
             else
               let (stack2, self2) =
                     (if \<not> list_ex (\<lambda>s. d_id new_dfa_state = d_id s) (dfa_states self1) then
                        (stack @ [new_dfa_state],
                         self1\<lparr>dfa_states := dfa_set_add (dfa_states self1) new_dfa_state,
                               dfa_final_states :=
                                 (if (case l_final_state nfa' of None \<Rightarrow> False
                                      | Some f \<Rightarrow> f \<in> set (d_states new_dfa_state))
                                  then dfa_set_add (dfa_final_states self1) new_dfa_state
                                  else dfa_final_states self1)\<rparr>)
                      else (stack, self1));
                   self3 =
                     (if \<not> transition_in (curr_dfa_state, new_dfa_state, action) (dfa_transitions self2)
                      then self2\<lparr>dfa_transitions :=
                                   dfa_transitions self2 @ [(curr_dfa_state, new_dfa_state, action)]\<rparr>
                      else self2)
               in explore_actions io curr_dfa_state rest (stack2, self3)))"

partial_function (option) construct_DFA_loop ::
  "iter_order \<Rightarrow> DFA_State list \<Rightarrow> DFA \<Rightarrow> (py_error + DFA) option" where
  "construct_DFA_loop io stack self =
     (if stack = [] then Some (Inr self)
      else
        Option.bind (explore_actions io (last stack) (actions self) (butlast stack, self))
          (\<lambda>r. case r of
                  Inl e \<Rightarrow> Some (Inl e)
                | Inr (stack', self') \<Rightarrow> construct_DFA_loop io stack' self'))"

declare construct_DFA_loop.simps [code]

definition construct_DFA :: "iter_order \<Rightarrow> pystr json \<Rightarrow> (py_error + DFA) option" where
  "construct_DFA io data =
     (case load_NFA_json data of
        Inl e \<Rightarrow> Some (Inl e)
      | Inr (nfa0, acts) \<Rightarrow>
         (case dfa_epsilon_closure nfa0 Start of
            None \<Rightarrow> None
          | Some (Inl e) \<Rightarrow> Some (Inl e)
          | Some (Inr c) \<Rightarrow>
             (let start = new_DFA_State io nfa0 c False
              in construct_DFA_loop io [start]
                   \<lparr>dfa_nfa = nfa0, dfa_states = [start], dfa_start_state = Some start,
                    dfa_final_states = [], actions = acts, dfa_transitions = []\<rparr>)))"

section \<open>DFA.py: minimization\<close>

text \<open>
  Dictionaries whose keys are \<open>DFA_State\<close> objects are keyed by \<open>d_id\<close>, which is all that
  \<open>__hash__\<close> and \<open>__eq__\<close> read.
\<close>

type_synonym transition_table = "(name list \<times> (pystr \<times> DFA_State) list) list"

definition create_transition_table :: "DFA \<Rightarrow> transition_table" where
  "create_transition_table self =
     (let tt = fold (\<lambda>(src_state, target_state, action) tt.
                       AList.update (d_id src_state)
                         (AList.update action target_state
                            (case map_of tt (d_id src_state) of None \<Rightarrow> [] | Some row \<Rightarrow> row))
                         tt)
                 (dfa_transitions self) []
      in fold (\<lambda>state tt. if map_of tt (d_id state) = None then AList.update (d_id state) [] tt else tt)
           (dfa_states self) tt)"

text \<open>
  The variables of \<open>__split_states\<close> that its loops update: \<open>state_to_group\<close>,
  \<open>group_to_state\<close>, \<open>num_of_groups\<close> and \<open>new_states\<close>.
\<close>

record split_vars =
  state_to_group :: "(name list \<times> nat) list"
  group_to_state :: "(nat \<times> DFA_State list) list"
  num_of_groups :: nat
  new_states :: "DFA_State list"

definition initial_groups :: "DFA \<Rightarrow> split_vars" where
  "initial_groups self =
     fold (\<lambda>state v.
             let g = (if list_ex (\<lambda>f. dfa_state_eq f state) (dfa_final_states self) then 1 else 0)
             in v\<lparr>state_to_group := AList.update (d_id state) g (state_to_group v),
                  group_to_state :=
                    AList.update g
                      (dfa_set_add (case map_of (group_to_state v) g of None \<Rightarrow> [] | Some s \<Rightarrow> s) state)
                      (group_to_state v)\<rparr>)
       (dfa_states self)
       \<lparr>state_to_group = [], group_to_state = [(0, []), (1, [])], num_of_groups = 2, new_states = []\<rparr>"

text \<open>
  The body of \<open>for state in curr_states\<close>, for one action: \<open>curr_target\<close> and \<open>target_group\<close>
  belong to the representative. A missing dictionary key raises \<open>KeyError\<close>, as does
  \<open>set.remove\<close> of an absent element.
\<close>

fun split_group_on_action ::
  "transition_table \<Rightarrow> pystr \<Rightarrow> DFA_State option \<Rightarrow> nat option \<Rightarrow> DFA_State list \<Rightarrow> split_vars
     \<Rightarrow> py_error + split_vars" where
  "split_group_on_action tt action curr_target target_group [] v = Inr v"
| "split_group_on_action tt action curr_target target_group (state # rest) v =
     (case map_of tt (d_id state) of
        None \<Rightarrow> Inl KeyError
      | Some row \<Rightarrow>
         (let target_state = map_of row action in
          case map_of (state_to_group v) (d_id state) of
            None \<Rightarrow> Inl KeyError
          | Some grp \<Rightarrow>
             if curr_target = None \<and> target_state = None then
               split_group_on_action tt action curr_target target_group rest v
             else
               (case (case target_state of
                        None \<Rightarrow> Inr True
                      | Some t \<Rightarrow>
                         (case map_of (state_to_group v) (d_id t) of
                            None \<Rightarrow> Inl KeyError
                          | Some g \<Rightarrow> Inr (Some g \<noteq> target_group))) of
                  Inl e \<Rightarrow> Inl e
                | Inr False \<Rightarrow> split_group_on_action tt action curr_target target_group rest v
                | Inr True \<Rightarrow>
                   (case map_of (group_to_state v) grp of
                      None \<Rightarrow> Inl KeyError
                    | Some members \<Rightarrow>
                       if \<not> list_ex (\<lambda>m. dfa_state_eq m state) members then Inl KeyError
                       else
                         let n = num_of_groups v;
                             g2s1 = AList.update grp
                                      (filter (\<lambda>m. \<not> dfa_state_eq m state) members) (group_to_state v);
                             g2s2 = (if map_of g2s1 n = None then AList.update n [] g2s1 else g2s1);
                             g2s3 = AList.update n
                                      (dfa_set_add (case map_of g2s2 n of None \<Rightarrow> [] | Some s \<Rightarrow> s) state)
                                      g2s2
                         in split_group_on_action tt action curr_target target_group rest
                              (v\<lparr>new_states := dfa_set_add (new_states v) state,
                                 state_to_group := AList.update (d_id state) n (state_to_group v),
                                 group_to_state := g2s3\<rparr>)))))"

fun split_group ::
  "transition_table \<Rightarrow> DFA_State \<Rightarrow> DFA_State list \<Rightarrow> pystr list \<Rightarrow> split_vars \<Rightarrow> py_error + split_vars" where
  "split_group tt curr_representative curr_states [] v = Inr v"
| "split_group tt curr_representative curr_states (action # rest) v =
     (case map_of tt (d_id curr_representative) of
        None \<Rightarrow> Inl KeyError
      | Some row \<Rightarrow>
         (let curr_target = map_of row action in
          case (case curr_target of
                  None \<Rightarrow> Inr None
                | Some t \<Rightarrow>
                   (case map_of (state_to_group v) (d_id t) of
                      None \<Rightarrow> Inl KeyError
                    | Some g \<Rightarrow> Inr (Some g))) of
            Inl e \<Rightarrow> Inl e
          | Inr target_group \<Rightarrow>
             (case split_group_on_action tt action curr_target target_group curr_states v of
                Inl e \<Rightarrow> Inl e
              | Inr v' \<Rightarrow> split_group tt curr_representative curr_states rest v')))"

text \<open>
  The \<open>while stack\<close> loop. \<open>list(curr_states)[0]\<close> raises \<open>IndexError\<close> when the popped
  group is empty.
\<close>

partial_function (option) split_states_loop ::
  "transition_table \<Rightarrow> pystr list \<Rightarrow> DFA_State list list \<Rightarrow> split_vars \<Rightarrow> (py_error + split_vars) option" where
  "split_states_loop tt acts stack v =
     (if stack = [] then Some (Inr v)
      else
        let curr_states = last stack in
        if curr_states = [] then Some (Inl IndexError)
        else
          (case split_group tt (hd curr_states) curr_states acts (v\<lparr>new_states := []\<rparr>) of
             Inl e \<Rightarrow> Some (Inl e)
           | Inr v' \<Rightarrow>
              (let remaining = filter (\<lambda>s. \<not> list_ex (\<lambda>n. dfa_state_eq n s) (new_states v')) curr_states
               in if length (new_states v') > 0
                  then split_states_loop tt acts (butlast stack @ [remaining, new_states v'])
                         (v'\<lparr>num_of_groups := num_of_groups v' + 1\<rparr>)
                  else split_states_loop tt acts (butlast stack) v')))"

declare split_states_loop.simps [code]

definition split_states :: "DFA \<Rightarrow> transition_table \<Rightarrow> (py_error + split_vars) option" where
  "split_states self tt =
     (let v = initial_groups self;
          non_accepting_group = (case map_of (group_to_state v) 0 of None \<Rightarrow> [] | Some s \<Rightarrow> s);
          accepting_group = (case map_of (group_to_state v) 1 of None \<Rightarrow> [] | Some s \<Rightarrow> s)
      in split_states_loop tt (actions self) [non_accepting_group, accepting_group] v)"

text \<open>\<open>__group_to_state\<close>: the merged state of a group; it also reassigns \<open>self.start_state\<close>.\<close>

definition group_to_dfa_state :: "iter_order \<Rightarrow> DFA \<Rightarrow> DFA_State list \<Rightarrow> DFA_State \<times> DFA" where
  "group_to_dfa_state io self members =
     (let is_start = list_ex (\<lambda>s. case dfa_start_state self of None \<Rightarrow> False
                                   | Some st \<Rightarrow> dfa_state_eq s st) members;
          fin = list_ex (\<lambda>s. list_ex (\<lambda>f. dfa_state_eq f s) (dfa_final_states self)) members;
          all_nfa_states = fold (\<lambda>s acc. set_union acc (d_states s)) members [];
          new_dfa_state = new_DFA_State io (dfa_nfa self) all_nfa_states fin
      in (new_dfa_state,
          if is_start then self\<lparr>dfa_start_state := Some new_dfa_state\<rparr> else self))"

fun update_transitions_loop ::
  "iter_order \<Rightarrow> split_vars \<Rightarrow> (DFA_State \<times> DFA_State \<times> pystr) list
     \<Rightarrow> DFA \<times> (DFA_State \<times> DFA_State \<times> pystr) list
     \<Rightarrow> py_error + DFA \<times> (DFA_State \<times> DFA_State \<times> pystr) list" where
  "update_transitions_loop io v [] acc = Inr acc"
| "update_transitions_loop io v ((src_state, target_state, action) # rest) (self, new_transitions) =
     (case map_of (state_to_group v) (d_id src_state) of
        None \<Rightarrow> Inl KeyError
      | Some src_group \<Rightarrow>
         (case map_of (group_to_state v) src_group of
            None \<Rightarrow> Inl KeyError
          | Some src_members \<Rightarrow>
             (let (src, self1) = group_to_dfa_state io self src_members in
              case map_of (state_to_group v) (d_id target_state) of
                None \<Rightarrow> Inl KeyError
              | Some target_group \<Rightarrow>
                 (case map_of (group_to_state v) target_group of
                    None \<Rightarrow> Inl KeyError
                  | Some target_members \<Rightarrow>
                     (let (target, self2) = group_to_dfa_state io self1 target_members;
                          self3 = self2\<lparr>dfa_states := dfa_set_add (dfa_set_add (dfa_states self2) src) target\<rparr>;
                          self4 = (if d_is_final src
                                   then self3\<lparr>dfa_final_states := dfa_set_add (dfa_final_states self3) src\<rparr>
                                   else self3);
                          self5 = (if d_is_final target
                                   then self4\<lparr>dfa_final_states := dfa_set_add (dfa_final_states self4) target\<rparr>
                                   else self4)
                      in update_transitions_loop io v rest
                           (self5,
                            if \<not> transition_in (src, target, action) new_transitions
                            then new_transitions @ [(src, target, action)]
                            else new_transitions))))))"

definition update_transitions :: "iter_order \<Rightarrow> DFA \<Rightarrow> split_vars \<Rightarrow> py_error + DFA" where
  "update_transitions io self v =
     (case update_transitions_loop io v (dfa_transitions self) (self\<lparr>dfa_states := []\<rparr>, []) of
        Inl e \<Rightarrow> Inl e
      | Inr (self', new_transitions) \<Rightarrow> Inr (self'\<lparr>dfa_transitions := new_transitions\<rparr>))"

text \<open>\<open>__minimize_DFA\<close> without the file it writes, and \<open>__build\<close>.\<close>

definition minimize_DFA :: "iter_order \<Rightarrow> DFA \<Rightarrow> (py_error + DFA) option" where
  "minimize_DFA io self =
     (let transition_table = create_transition_table self in
      case split_states self transition_table of
        None \<Rightarrow> None
      | Some (Inl e) \<Rightarrow> Some (Inl e)
      | Some (Inr v) \<Rightarrow> Some (update_transitions io self v))"

definition build :: "iter_order \<Rightarrow> pystr json \<Rightarrow> bool \<Rightarrow> (py_error + DFA) option" where
  "build io data minimized =
     (case construct_DFA io data of
        None \<Rightarrow> None
      | Some (Inl e) \<Rightarrow> Some (Inl e)
      | Some (Inr self) \<Rightarrow> if minimized then minimize_DFA io self else Some (Inr self))"

section \<open>The pipeline and acceptance by a DFA\<close>

text \<open>
  The two \<open>__main__\<close> blocks chained: \<open>NFA.py\<close> builds the NFA of the regex and saves
  \<open>nfa.json\<close>, \<open>DFA.py\<close> builds \<open>DFA("nfa.json", minimized)\<close> from that file.
\<close>

definition regex_to_json :: "pystr \<Rightarrow> pystr json outcome option" where
  "regex_to_json regex_str =
     (case regex_to_nfa regex_str of
        None \<Rightarrow> None
      | Some (SyntaxError e) \<Rightarrow> Some (SyntaxError e)
      | Some (PyError e) \<Rightarrow> Some (PyError e)
      | Some (Result n) \<Rightarrow>
         (case to_json n of
            Inl e \<Rightarrow> Some (PyError e)
          | Inr j \<Rightarrow> Some (Result (json_file j))))"

definition regex_to_dfa :: "iter_order \<Rightarrow> pystr \<Rightarrow> bool \<Rightarrow> DFA outcome option" where
  "regex_to_dfa io regex_str minimized =
     (case regex_to_json regex_str of
        None \<Rightarrow> None
      | Some (SyntaxError e) \<Rightarrow> Some (SyntaxError e)
      | Some (PyError e) \<Rightarrow> Some (PyError e)
      | Some (Result data) \<Rightarrow>
         (case build io data minimized of
            None \<Rightarrow> None
          | Some (Inl e) \<Rightarrow> Some (PyError e)
          | Some (Inr d) \<Rightarrow> Some (Result d)))"

text \<open>
  Modelled from the spec: one step of a DFA on an input character. \<open>DFA.py\<close> has no
  function that runs a DFA on a string, and the spec only names \<open>DFA(R).match(s)\<close>. Acceptance by the transition relation from the start
  state is read as: from \<open>start_state\<close>, follow for each input character the triples of
  \<open>transitions\<close> whose source is a current state and whose label matches the character
  under the label rule of the matcher; accept when a state reached at the end is in
  \<open>final_states\<close>. Labels of one DFA state can overlap on a character (\<open>a\<close>, \<open>.\<close>, \<open>a - z\<close>),
  so the run keeps a list of current states.
\<close>

fun dfa_step ::
  "(DFA_State \<times> DFA_State \<times> pystr) list \<Rightarrow> DFA_State list \<Rightarrow> pychar \<Rightarrow> py_error + DFA_State list" where
  "dfa_step [] current char = Inr []"
| "dfa_step ((src, dst, action) # rest) current char =
     (case label_matches (Some action) char of
        Inl e \<Rightarrow> Inl e
      | Inr b \<Rightarrow>
         (case dfa_step rest current char of
            Inl e \<Rightarrow> Inl e
          | Inr ds \<Rightarrow>
             Inr (if b \<and> list_ex (\<lambda>q. dfa_state_eq q src) current then dst # ds else ds)))"

text \<open>
  Modelled from the spec: the run of a DFA over the input (the source has none), one
  \<open>dfa_step\<close> per character; at the end of the input it accepts when a current state is in
  \<open>final_states\<close>.
\<close>

fun dfa_run :: "DFA \<Rightarrow> DFA_State list \<Rightarrow> pystr \<Rightarrow> py_error + bool" where
  "dfa_run self current [] =
     Inr (list_ex (\<lambda>q. list_ex (\<lambda>f. dfa_state_eq f q) (dfa_final_states self)) current)"
| "dfa_run self current (char # rest) =
     (case dfa_step (dfa_transitions self) current char of
        Inl e \<Rightarrow> Inl e
      | Inr current' \<Rightarrow> dfa_run self current' rest)"

text \<open>
  Modelled from the spec: \<open>DFA(R).match(s)\<close> (the source has none), the run from
  \<open>start_state\<close>.
\<close>

definition dfa_accepts :: "DFA \<Rightarrow> pystr \<Rightarrow> py_error + bool" where
  "dfa_accepts self input_string =
     (case dfa_start_state self of
        None \<Rightarrow> Inr False
      | Some q0 \<Rightarrow> dfa_run self [q0] input_string)"

section \<open>Auxiliary definitions for the proofs\<close>


text \<open>
  \<open>targets_of nfa i a\<close>: the set stored in \<open>nfa.states[i].transitions[a]\<close>, if any.
  \<open>eps_closure_set nfa t\<close>: what \<open>__epsilon_closure(t)\<close> returns, as a set.
  \<open>nfa_grows nfa nfa'\<close>: every stored target set of \<open>nfa\<close> is still stored in \<open>nfa'\<close>, as a
  superset. \<open>same_eps nfa nfa'\<close>: the two stores have the same names and the same epsilon
  entries, which is all that \<open>__epsilon_closure\<close> reads.
\<close>

definition targets_of :: "LNFA \<Rightarrow> nat \<Rightarrow> pystr \<Rightarrow> sref list option" where
  "targets_of nfa i a = map_of (l_transitions (l_states nfa ! i)) a"

definition eps_closure_set :: "LNFA \<Rightarrow> sref \<Rightarrow> sref set" where
  "eps_closure_set nfa t = (case dfa_epsilon_closure nfa t of Some (Inr c) \<Rightarrow> set c | _ \<Rightarrow> {})"

definition nfa_grows :: "LNFA \<Rightarrow> LNFA \<Rightarrow> bool" where
  "nfa_grows nfa nfa' =
     (length (l_states nfa') = length (l_states nfa) \<and>
      (\<forall>i a ts. i < length (l_states nfa) \<longrightarrow> targets_of nfa i a = Some ts \<longrightarrow>
         (\<exists>ts'. targets_of nfa' i a = Some ts' \<and> set ts \<subseteq> set ts')))"

definition eps_part :: "(pystr \<times> sref list) list \<Rightarrow> (pystr \<times> sref list) list" where
  "eps_part entries = filter (\<lambda>(a, ts). a = EPSILON) entries"

definition same_eps :: "LNFA \<Rightarrow> LNFA \<Rightarrow> bool" where
  "same_eps nfa nfa' =
     (lid (l_start_state nfa') = lid (l_start_state nfa) \<and>
      length (l_states nfa') = length (l_states nfa) \<and>
      (\<forall>k. lid (l_states nfa' ! k) = lid (l_states nfa ! k) \<and>
           eps_part (l_transitions (l_states nfa' ! k)) = eps_part (l_transitions (l_states nfa ! k))))"

text \<open>The loaded NFA of the regex \<open>a*\<close> and the start DFA state built from it.\<close>

definition astar_nfa :: LNFA where
  "astar_nfa =
     \<lparr>l_states =
        [\<lparr>lid = 0, l_is_final = False, l_transitions = [(py ''a'', [St 1])]\<rparr>,
         \<lparr>lid = 1, l_is_final = False, l_transitions = [(EPSILON, [St 2, St 3])]\<rparr>,
         \<lparr>lid = 2, l_is_final = False, l_transitions = [(EPSILON, [St 0, St 3])]\<rparr>,
         \<lparr>lid = 3, l_is_final = True, l_transitions = []\<rparr>],
      l_start_state = \<lparr>lid = 2, l_is_final = False, l_transitions = []\<rparr>,
      l_final_state = Some (St 3)\<rparr>"

definition astar_start :: DFA_State where
  "astar_start = \<lparr>d_states = [Start, St 0, St 3], d_id = [2, 0, 3], d_is_final = False\<rparr>"

text \<open>The same NFA after \<open>__get_reachable_states\<close> has processed the start DFA state on \<open>a\<close>.\<close>

definition astar_nfa_after :: LNFA where
  "astar_nfa_after =
     \<lparr>l_states =
        [\<lparr>lid = 0, l_is_final = False, l_transitions = [(py ''a'', [St 1, St 2, St 3, St 0])]\<rparr>,
         \<lparr>lid = 1, l_is_final = False, l_transitions = [(EPSILON, [St 2, St 3])]\<rparr>,
         \<lparr>lid = 2, l_is_final = False, l_transitions = [(EPSILON, [St 0, St 3])]\<rparr>,
         \<lparr>lid = 3, l_is_final = True, l_transitions = []\<rparr>],
      l_start_state = \<lparr>lid = 2, l_is_final = False, l_transitions = []\<rparr>,
      l_final_state = Some (St 3)\<rparr>"

text \<open>
  Well-formedness of a loaded NFA. \<open>valid_ref nfa r\<close>: \<open>r\<close> is the start object or an element
  of \<open>nfa.states\<close>. \<open>targets_valid nfa\<close>: every stored target is such an object.
  \<open>names_valid nfa\<close>: the number in every state name, the start state's included, is an
  index of \<open>nfa.states\<close>, so that \<open>self.nfa.states[int(state.id[1:])]\<close> does not raise.
  \<open>same_names nfa nfa'\<close>: the two stores have the same states under the same names.
\<close>

definition valid_ref :: "LNFA \<Rightarrow> sref \<Rightarrow> bool" where
  "valid_ref nfa r = (case r of Start \<Rightarrow> True | St j \<Rightarrow> j < length (l_states nfa))"

definition targets_valid :: "LNFA \<Rightarrow> bool" where
  "targets_valid nfa =
     ((\<forall>i e t. i < length (l_states nfa) \<longrightarrow> e \<in> set (l_transitions (l_states nfa ! i)) \<longrightarrow>
          t \<in> set (snd e) \<longrightarrow> valid_ref nfa t) \<and>
      (\<forall>e t. e \<in> set (l_transitions (l_start_state nfa)) \<longrightarrow> t \<in> set (snd e) \<longrightarrow> valid_ref nfa t))"

definition names_valid :: "LNFA \<Rightarrow> bool" where
  "names_valid nfa =
     ((\<forall>i. i < length (l_states nfa) \<longrightarrow> lid (l_states nfa ! i) < length (l_states nfa)) \<and>
      lid (l_start_state nfa) < length (l_states nfa))"

definition same_names :: "LNFA \<Rightarrow> LNFA \<Rightarrow> bool" where
  "same_names nfa nfa' =
     (lid (l_start_state nfa') = lid (l_start_state nfa) \<and>
      length (l_states nfa') = length (l_states nfa) \<and>
      l_final_state nfa' = l_final_state nfa \<and>
      (\<forall>k. lid (l_states nfa' ! k) = lid (l_states nfa ! k)))"

text \<open>
  \<open>name_set nfa\<close>: the names of the state objects. \<open>possible_ids io nfa\<close>: the keys a
  \<open>DFA_State\<close> over these objects can get, a finite set. \<open>stack_valid nfa stack\<close>: the DFA
  states of \<open>stack\<close> hold state objects of \<open>nfa\<close> only.
\<close>

definition name_set :: "LNFA \<Rightarrow> name set" where
  "name_set nfa =
     insert (lid (l_start_state nfa)) ((\<lambda>k. lid (l_states nfa ! k)) ` {..<length (l_states nfa)})"

definition possible_ids :: "iter_order \<Rightarrow> LNFA \<Rightarrow> name list set" where
  "possible_ids io nfa = io ` {xs. set xs \<subseteq> name_set nfa \<and> distinct xs}"

definition stack_valid :: "LNFA \<Rightarrow> DFA_State list \<Rightarrow> bool" where
  "stack_valid nfa stack = (\<forall>q x. q \<in> set stack \<longrightarrow> x \<in> set (d_states q) \<longrightarrow> valid_ref nfa x)"

text \<open>
  \<open>extends io self news self'\<close>: what one pass of the loops of \<open>__construct_DFA\<close> may change in
  the DFA object: the NFA store keeps its names, \<open>news\<close> is appended to \<open>self.states\<close>, its
  keys are new, every state added to \<open>final_states\<close> is one of \<open>news\<close>, and \<open>start_state\<close> and
  \<open>actions\<close> stay.
\<close>

definition extends :: "iter_order \<Rightarrow> DFA \<Rightarrow> DFA_State list \<Rightarrow> DFA \<Rightarrow> bool" where
  "extends io self news self' =
     (targets_valid (dfa_nfa self') \<and> same_names (dfa_nfa self) (dfa_nfa self') \<and>
      actions self' = actions self \<and> dfa_start_state self' = dfa_start_state self \<and>
      dfa_states self' = dfa_states self @ news \<and>
      stack_valid (dfa_nfa self) news \<and>
      d_id ` set news \<subseteq> possible_ids io (dfa_nfa self) - d_id ` set (dfa_states self) \<and>
      set (dfa_final_states self') \<subseteq> set (dfa_final_states self) \<union> set news)"

text \<open>
  \<open>refs_below n st\<close>: every target stored in the state object \<open>st\<close> is the detached start
  object or one of the first \<open>n\<close> objects of \<open>nfa.states\<close>.
\<close>

definition refs_below :: "nat \<Rightarrow> LState \<Rightarrow> bool" where
  "refs_below n st =
     (\<forall>e t. e \<in> set (l_transitions st) \<longrightarrow> t \<in> set (snd e) \<longrightarrow>
            (case t of Start \<Rightarrow> True | St j \<Rightarrow> j < n))"

definition all_below :: "LState list \<Rightarrow> bool" where
  "all_below sts = (\<forall>st. st \<in> set sts \<longrightarrow> refs_below (length sts) st)"

text \<open>\<open>loaded_step sts sts'\<close>: what the second loop of \<open>__load_NFA_json\<close> keeps.\<close>

definition loaded_step :: "LState list \<Rightarrow> LState list \<Rightarrow> bool" where
  "loaded_step sts sts' =
     (length sts' = length sts \<and> map lid sts' = map lid sts \<and> (all_below sts \<longrightarrow> all_below sts'))"

section \<open>The parser returns on every input\<close>

lemma adv_mono: "adv s p r \<Longrightarrow> pos \<le> p \<Longrightarrow> adv s pos r"
  by (auto simp: adv_def split: sum.splits)

lemma eat_pos:
  assumes "eat s pos c = (b, p)"
  shows "pos \<le> p" and "pos \<le> length s \<Longrightarrow> p \<le> length s" and "b \<Longrightarrow> p = Suc pos \<and> pos < length s"
    and "\<not> b \<Longrightarrow> p = pos"
  using assms by (auto simp: eat_def split: if_splits option.splits)

lemma assignQuantifier_pos:
  assumes "assignQuantifier s pos node = (node', p)"
  shows "pos \<le> p" and "pos \<le> length s \<Longrightarrow> p \<le> length s"
  using assms by (auto simp: assignQuantifier_def eat_def Let_def split: if_splits option.splits)

lemma parseChar_pos:
  assumes "parseChar s pos = (node, p)" and "pos < length s"
  shows "p = Suc pos"
  using assms by (auto simp: parseChar_def eat_def peak_def Let_def split: if_splits)

lemma parseRange_pos:
  assumes "parseRange s pos = Inr (r, p)" and "pos < length s"
  shows "(r = None \<and> p = pos) \<or> (r \<noteq> None \<and> p = pos + 3 \<and> p \<le> length s)"
  using assms by (auto simp: parseRange_def eat_def peak_def Let_def split: if_splits option.splits)

lemma parseSet_step:
  assumes "pos < length s"
  shows "(\<exists>r. parseSet s pos ne chn = Some r \<and> adv s pos r) \<or>
         (\<exists>p ne' chn'. pos < p \<and> p \<le> length s \<and> parseSet s pos ne chn = parseSet s p ne' chn')"
proof -
  have nd: "\<not> is_done s pos" using assms by (simp add: is_done_def)
  have pk: "peak s pos 0 = Some (s ! pos)" using assms by (simp add: peak_def)
  have e: "eat s pos None = (True, Suc pos)" using assms by (simp add: eat_def)
  show ?thesis
  proof (cases "s ! pos = BACKSLASH")
    case True
    have "parseSet s pos ne chn = parseSet s (Suc pos) True chn"
      by (subst parseSet.simps) (simp add: nd pk e True)
    then show ?thesis using assms by (intro disjI2) (metis Suc_leI lessI)
  next
    case nb: False
    show ?thesis
    proof (cases "\<not> ne \<and> s ! pos = ch CHR '']''")
      case True
      have "parseSet s pos ne chn = Some (Inr (ExprNode CharacterSet None None None None chn, pos))"
        using True by (subst parseSet.simps) (simp add: nd pk nb)
      then show ?thesis using assms by (simp add: adv_def)
    next
      case False
      show ?thesis
      proof (cases "parseRange s pos")
        case (Inl e)
        have "parseSet s pos ne chn = Some (Inl e)"
          using False by (subst parseSet.simps) (auto simp add: nd pk nb Inl)
        then show ?thesis by (simp add: adv_def)
      next
        case (Inr rp)
        obtain r p1 where rp: "rp = (r, p1)" by (cases rp)
        from parseRange_pos[OF Inr[unfolded rp] assms]
        consider "r = None" "p1 = pos" | node where "r = Some node" "p1 = pos + 3" "p1 \<le> length s"
          by auto
        then show ?thesis
        proof cases
          case 1
          obtain node p2 where pc: "parseChar s pos = (node, p2)" by (cases "parseChar s pos")
          have p2: "p2 = Suc pos" using parseChar_pos[OF pc assms] .
          have "parseSet s pos ne chn = parseSet s (Suc pos) False (chn @ [[node]])"
            using False by (subst parseSet.simps) (auto simp add: nd pk nb Inr rp 1 pc p2)
          then show ?thesis using assms by (intro disjI2) (metis Suc_leI lessI)
        next
          case 2
          have "parseSet s pos ne chn = parseSet s (pos + 3) False (chn @ [[node]])"
            using False by (subst parseSet.simps) (auto simp add: nd pk nb Inr rp 2)
          moreover have "pos < pos + 3" by simp
          ultimately show ?thesis using 2 by (intro disjI2) metis
        qed
      qed
    qed
  qed
qed

lemma parseSet_returns:
  assumes "pos \<le> length s"
  shows "\<exists>r. parseSet s pos ne chn = Some r \<and> adv s pos r"
  using assms
proof (induction "length s - pos" arbitrary: pos ne chn rule: less_induct)
  case less
  show ?case
  proof (cases "pos < length s")
    case False
    hence "is_done s pos" by (simp add: is_done_def)
    hence "parseSet s pos ne chn = Some (Inr (ExprNode CharacterSet None None None None chn, pos))"
      by (subst parseSet.simps) simp
    then show ?thesis using less.prems by (simp add: adv_def)
  next
    case True
    from parseSet_step[OF True, of ne chn] show ?thesis
    proof
      assume "\<exists>r. parseSet s pos ne chn = Some r \<and> adv s pos r"
      then show ?thesis .
    next
      assume "\<exists>p ne' chn'. pos < p \<and> p \<le> length s \<and> parseSet s pos ne chn = parseSet s p ne' chn'"
      then obtain p ne' chn' where p: "pos < p" "p \<le> length s"
        and eq: "parseSet s pos ne chn = parseSet s p ne' chn'" by blast
      have "length s - p < length s - pos" using p True by simp
      from less.hyps[OF this p(2), of ne' chn']
      obtain r where "parseSet s p ne' chn' = Some r" "adv s p r" by blast
      then show ?thesis using eq p(1) adv_mono[of s p r pos] by auto
    qed
  qed
qed


lemma parseChar_pos':
  assumes "parseChar s pos = (node, p)"
  shows "pos \<le> p" and "pos \<le> length s \<Longrightarrow> p \<le> length s"
  using assms by (auto simp: parseChar_def eat_def peak_def Let_def split: if_splits)

lemma eat_Some:
  "pos < length s \<Longrightarrow> eat s pos (Some c) = (s ! pos = c, if s ! pos = c then Suc pos else pos)"
  by (simp add: eat_def)

lemma parseGroup_cont:
  assumes "pos < p" "p \<le> length s" "assignQuantifier s p node = (node', p')"
  shows "\<exists>q chn' co'. pos < q \<and> q \<le> length s \<and>
           parseGroup s is_root p' (append_child chn co node') co = parseGroup s is_root q chn' co'"
  using assms assignQuantifier_pos[OF assms(3)] by (intro exI[of _ p']) auto

lemma parseGroup_step:
  assumes lt: "pos < length s"
    and nested: "\<And>p root chn co. pos < p \<Longrightarrow> p \<le> length s \<Longrightarrow>
                   \<exists>r. parseGroup s root p chn co = Some r \<and> adv s p r"
  shows "(\<exists>r. parseGroup s is_root pos chn co = Some r \<and> adv s pos r) \<or>
         (\<exists>p chn' co'. pos < p \<and> p \<le> length s \<and>
             parseGroup s is_root pos chn co = parseGroup s is_root p chn' co')"
proof -
  have nd: "\<not> is_done s pos" using lt by (simp add: is_done_def)
  have pk: "peak s pos 0 = Some (s ! pos)" using lt by (simp add: peak_def)
  have e: "eat s pos None = (True, Suc pos)" using lt by (simp add: eat_def)
  note es = eat_Some[OF lt]
  let ?c = "s ! pos"
  consider (lpar) "?c = 40" | (rpar) "?c = 41" | (lbr) "?c = 91" | (bs) "?c = 92"
    | (dot) "?c = 46" | (bar) "?c = 124" | (quant) "?c \<in> {63, 43, 42}"
    | (other) "?c \<notin> {40, 41, 91, 92, 46, 124, 63, 43, 42}" by blast
  then show ?thesis
  proof cases
    case lpar
    have sl: "Suc pos \<le> length s" using lt by simp
    from nested[of "Suc pos" False "[[]]" 0] sl
    obtain r1 where r1: "parseGroup s False (Suc pos) [[]] 0 = Some r1" and a1: "adv s (Suc pos) r1"
      by auto
    show ?thesis
    proof (cases r1)
      case (Inl err)
      have "parseGroup s is_root pos chn co = Some (Inl err)"
        by (subst parseGroup.simps) (simp add: nd es lpar r1 Inl)
      then show ?thesis by (simp add: adv_def)
    next
      case (Inr np)
      obtain node p2 where np: "np = (node, p2)" by (cases np)
      have p2: "Suc pos \<le> p2" "p2 \<le> length s" using a1 by (auto simp: adv_def Inr np)
      obtain b2 p3 where e2: "eat s p2 (Some (ch CHR '')'')) = (b2, p3)" by fastforce
      show ?thesis
      proof (cases b2)
        case False
        have "parseGroup s is_root pos chn co = Some (Inl (Expected_rparen p3))"
          using False e2 by (subst parseGroup.simps) (simp add: nd es lpar r1 Inr np)
        then show ?thesis by (simp add: adv_def)
      next
        case True
        have p3: "p3 = Suc p2" "p2 < length s" using eat_pos(3)[OF e2 True] by auto
        obtain node' p4 where aq: "assignQuantifier s p3 node = (node', p4)" by fastforce
        have eq: "parseGroup s is_root pos chn co
                  = parseGroup s is_root p4 (append_child chn co node') co"
          using True e2 aq by (subst parseGroup.simps) (simp add: nd es lpar r1 Inr np)
        have "pos < p3" "p3 \<le> length s" using p2 p3 by auto
        from parseGroup_cont[OF this aq] show ?thesis unfolding eq by blast
      qed
    qed
  next
    case rpar
    have "parseGroup s is_root pos chn co =
            (if is_root then Some (Inl (Unexpected (Some 41) pos))
             else Some (Inr (ExprNode Group None None None None chn, pos)))"
      by (subst parseGroup.simps) (simp add: nd es rpar pk)
    then show ?thesis using lt by (simp add: adv_def)
  next
    case lbr
    have sl: "Suc pos \<le> length s" using lt by simp
    from parseSet_returns[OF sl, of False "[]"]
    obtain r1 where r1: "parseSet s (Suc pos) False [] = Some r1" and a1: "adv s (Suc pos) r1"
      by auto
    show ?thesis
    proof (cases r1)
      case (Inl err)
      have "parseGroup s is_root pos chn co = Some (Inl err)"
        by (subst parseGroup.simps) (simp add: nd es lbr pk r1 Inl)
      then show ?thesis by (simp add: adv_def)
    next
      case (Inr np)
      obtain node p2 where np: "np = (node, p2)" by (cases np)
      have p2: "Suc pos \<le> p2" "p2 \<le> length s" using a1 by (auto simp: adv_def Inr np)
      obtain b2 p3 where e2: "eat s p2 (Some (ch CHR '']'')) = (b2, p3)" by fastforce
      show ?thesis
      proof (cases b2)
        case False
        have "parseGroup s is_root pos chn co = Some (Inl (Expected_rbracket p3))"
          using False e2 by (subst parseGroup.simps) (simp add: nd es lbr pk r1 Inr np)
        then show ?thesis by (simp add: adv_def)
      next
        case True
        have p3: "p3 = Suc p2" "p2 < length s" using eat_pos(3)[OF e2 True] by auto
        obtain node' p4 where aq: "assignQuantifier s p3 node = (node', p4)" by fastforce
        have eq: "parseGroup s is_root pos chn co
                  = parseGroup s is_root p4 (append_child chn co node') co"
          using True e2 aq by (subst parseGroup.simps) (simp add: nd es lbr pk r1 Inr np)
        have "pos < p3" "p3 \<le> length s" using p2 p3 by auto
        from parseGroup_cont[OF this aq] show ?thesis unfolding eq by blast
      qed
    qed
  next
    case bs
    obtain node p4 where pc: "parseChar s (Suc pos) = (node, p4)" by fastforce
    obtain node' p5 where aq: "assignQuantifier s p4 node = (node', p5)" by fastforce
    have eq: "parseGroup s is_root pos chn co
              = parseGroup s is_root p5 (append_child chn co node') co"
      by (subst parseGroup.simps) (simp add: nd es bs pk e pc aq)
    have "pos < p4" "p4 \<le> length s" using parseChar_pos'[OF pc] lt by auto
    from parseGroup_cont[OF this aq] show ?thesis unfolding eq by blast
  next
    case dot
    have pa: "parseAny s pos = (new_node Any, Suc pos)" by (simp add: parseAny_def es dot)
    obtain node' p4 where aq: "assignQuantifier s (Suc pos) (new_node Any) = (node', p4)" by fastforce
    have eq: "parseGroup s is_root pos chn co
              = parseGroup s is_root p4 (append_child chn co node') co"
      by (subst parseGroup.simps) (simp add: nd es dot pk pa aq)
    have "pos < Suc pos" "Suc pos \<le> length s" using lt by auto
    from parseGroup_cont[OF this aq] show ?thesis unfolding eq by blast
  next
    case bar
    have eq: "parseGroup s is_root pos chn co = parseGroup s is_root (Suc pos) (chn @ [[]]) (co + 1)"
      by (subst parseGroup.simps) (simp add: nd es bar pk)
    show ?thesis unfolding eq using lt by (intro disjI2) (metis Suc_leI lessI)
  next
    case quant
    have "parseGroup s is_root pos chn co = Some (Inl (Unexpected (Some ?c) pos))"
      using quant by (subst parseGroup.simps) (auto simp add: nd es pk SPECIAL_CHARS_def)
    then show ?thesis by (simp add: adv_def)
  next
    case other
    obtain node p3 where pc: "parseChar s pos = (node, p3)" by fastforce
    have p3: "p3 = Suc pos" using parseChar_pos[OF pc lt] .
    obtain node' p4 where aq: "assignQuantifier s p3 node = (node', p4)" by fastforce
    have eq: "parseGroup s is_root pos chn co
              = parseGroup s is_root p4 (append_child chn co node') co"
      using other by (subst parseGroup.simps) (simp add: nd es pk pc aq SPECIAL_CHARS_def)
    have "pos < p3" "p3 \<le> length s" using p3 lt by auto
    from parseGroup_cont[OF this aq] show ?thesis unfolding eq by blast
  qed
qed

lemma parseGroup_returns:
  assumes "pos \<le> length s"
  shows "\<exists>r. parseGroup s is_root pos chn co = Some r \<and> adv s pos r"
  using assms
proof (induction "length s - pos" arbitrary: pos is_root chn co rule: less_induct)
  case less
  show ?case
  proof (cases "pos < length s")
    case False
    hence "is_done s pos" by (simp add: is_done_def)
    hence "parseGroup s is_root pos chn co = Some (Inr (ExprNode Group None None None None chn, pos))"
      by (subst parseGroup.simps) simp
    then show ?thesis using less.prems by (simp add: adv_def)
  next
    case True
    have nested: "\<exists>r. parseGroup s root p chn' co' = Some r \<and> adv s p r"
      if "pos < p" "p \<le> length s" for p root chn' co'
    proof -
      have "length s - p < length s - pos" using that True by simp
      from less.hyps[OF this that(2)] show ?thesis .
    qed
    from parseGroup_step[OF True nested, of is_root chn co] show ?thesis
    proof
      assume "\<exists>r. parseGroup s is_root pos chn co = Some r \<and> adv s pos r"
      then show ?thesis .
    next
      assume "\<exists>p chn' co'. pos < p \<and> p \<le> length s \<and>
                parseGroup s is_root pos chn co = parseGroup s is_root p chn' co'"
      then obtain p chn' co' where p: "pos < p" "p \<le> length s"
        and eq: "parseGroup s is_root pos chn co = parseGroup s is_root p chn' co'" by blast
      from nested[OF p, of is_root chn' co']
      obtain r where "parseGroup s is_root p chn' co' = Some r" "adv s p r" by blast
      then show ?thesis using eq p(1) adv_mono[of s p r pos] by auto
    qed
  qed
qed

section \<open>The wildcard and the escaped dot\<close>



lemma split_on_dot: "split_on (py '' - '') [] (py ''.'') = [py ''.'']"
  by code_simp












section \<open>Subset construction updates the stored transition sets\<close>

lemma set_set_add: "set (set_add xs x) = insert x (set xs)"
  by (auto simp: set_add_def)

lemma set_set_union: "set (set_union xs ys) = set xs \<union> set ys"
  unfolding set_union_def by (induction ys arbitrary: xs) (auto simp: set_set_add)

lemma eps_part_update: "l \<noteq> EPSILON \<Longrightarrow> eps_part (AList.update l v xs) = eps_part xs"
  by (induction xs) (auto simp: eps_part_def)

lemma push_inner_skip:
  "a \<noteq> EPSILON \<Longrightarrow>
   fold (\<lambda>target (al, st). if target \<notin> set al \<and> a = EPSILON
                           then (set_add al target, st @ [target]) else (al, st)) ts acc = acc"
  by (induction ts arbitrary: acc) (auto split: prod.splits)

lemma push_epsilon_targets_eps_part:
  "push_epsilon_targets entries acc = push_epsilon_targets (eps_part entries) acc"
proof (induction entries arbitrary: acc)
  case Nil
  show ?case by (simp add: eps_part_def)
next
  case (Cons e entries)
  obtain a ts where e: "e = (a, ts)" by (cases e)
  have step: "push_epsilon_targets (e # entries) acc =
        push_epsilon_targets entries
          (fold (\<lambda>target (al, st). if target \<notin> set al \<and> a = EPSILON
                                  then (set_add al target, st @ [target]) else (al, st)) ts acc)"
    by (simp add: push_epsilon_targets_def e)
  show ?case
  proof (cases "a = EPSILON")
    case True
    have "push_epsilon_targets (eps_part (e # entries)) acc =
        push_epsilon_targets (eps_part entries)
          (fold (\<lambda>target (al, st). if target \<notin> set al \<and> a = EPSILON
                                  then (set_add al target, st @ [target]) else (al, st)) ts acc)"
      using True by (simp add: push_epsilon_targets_def e eps_part_def)
    then show ?thesis using step Cons.IH by simp
  next
    case False
    have ep: "eps_part (e # entries) = eps_part entries" using False by (simp add: eps_part_def e)
    show ?thesis unfolding step ep push_inner_skip[OF False] by (rule Cons.IH)
  qed
qed

lemma same_eps_refl: "same_eps nfa nfa"
  by (simp add: same_eps_def)

lemma same_eps_sym: "same_eps nfa nfa' \<Longrightarrow> same_eps nfa' nfa"
  by (simp add: same_eps_def)

lemma same_eps_trans: "same_eps a b \<Longrightarrow> same_eps b c \<Longrightarrow> same_eps a c"
  by (simp add: same_eps_def)

lemma same_eps_sref_id: "same_eps nfa nfa' \<Longrightarrow> sref_id nfa' r = sref_id nfa r"
  by (cases r) (simp_all add: same_eps_def sref_id_def)

lemma nth_update_field:
  "lid ((xs[i := (xs ! i)\<lparr>l_transitions := t\<rparr>]) ! k) = lid (xs ! k)"
  by (cases "i < length xs") (auto simp: nth_list_update list_update_beyond not_less)

lemma nth_update_eps:
  assumes "l \<noteq> EPSILON"
  shows "eps_part (l_transitions
           ((xs[i := (xs ! i)\<lparr>l_transitions := AList.update l v (l_transitions (xs ! i))\<rparr>]) ! k))
         = eps_part (l_transitions (xs ! k))"
  using assms
  by (cases "i < length xs") (auto simp: nth_list_update eps_part_update list_update_beyond not_less)

lemma same_eps_store:
  assumes "l \<noteq> EPSILON"
  shows "same_eps nfa (store_transitions nfa r l ts)"
  using assms
  by (cases r) (simp_all add: same_eps_def store_transitions_def nth_update_field nth_update_eps)

lemma closure_loop_same_Some:
  assumes "dfa_epsilon_closure_loop nfa al st = Some y"
  shows "same_eps nfa nfa' \<Longrightarrow> dfa_epsilon_closure_loop nfa' al st = Some y"
  using assms
proof (induction arbitrary: nfa' rule: dfa_epsilon_closure_loop.raw_induct[rotated 1, consumes 1])
  case (1 loop nfa al st y)
  note se = \<open>same_eps nfa nfa'\<close> and body = "1.hyps"
  have id: "sref_id nfa' (last st) = sref_id nfa (last st)" using same_eps_sref_id[OF se] .
  have len: "length (l_states nfa') = length (l_states nfa)" using se by (simp add: same_eps_def)
  have ep: "eps_part (l_transitions (l_states nfa' ! k)) = eps_part (l_transitions (l_states nfa ! k))"
    for k using se by (simp add: same_eps_def)
  have push: "push_epsilon_targets (l_transitions (l_states nfa' ! k)) acc
            = push_epsilon_targets (l_transitions (l_states nfa ! k)) acc" for k acc
    using push_epsilon_targets_eps_part[of "l_transitions (l_states nfa' ! k)" acc]
      push_epsilon_targets_eps_part[of "l_transitions (l_states nfa ! k)" acc] ep[of k] by simp
  show ?case
  proof (cases "st = []")
    case True
    then show ?thesis using body by (subst dfa_epsilon_closure_loop.simps) simp
  next
    case ne: False
    show ?thesis
    proof (cases "length (l_states nfa) \<le> sref_id nfa (last st)")
      case True
      then show ?thesis using body ne
        by (subst dfa_epsilon_closure_loop.simps) (simp add: id len Let_def)
    next
      case False
      obtain al' st' where p: "push_epsilon_targets
          (l_transitions (l_states nfa ! sref_id nfa (last st))) (al, butlast st) = (al', st')"
        by fastforce
      have "loop nfa al' st' = Some y" using body ne False p by (simp add: Let_def)
      from "1.IH"[OF this se] have "dfa_epsilon_closure_loop nfa' al' st' = Some y" .
      then show ?thesis using ne False p
        by (subst dfa_epsilon_closure_loop.simps) (simp add: id len Let_def push)
    qed
  qed
qed

lemma closure_same:
  assumes "same_eps nfa nfa'"
  shows "dfa_epsilon_closure nfa' t = dfa_epsilon_closure nfa t"
proof (cases "dfa_epsilon_closure nfa t")
  case None
  show ?thesis
  proof (cases "dfa_epsilon_closure nfa' t")
    case None
    then show ?thesis using \<open>dfa_epsilon_closure nfa t = None\<close> by simp
  next
    case (Some y)
    then have "dfa_epsilon_closure nfa t = Some y"
      using closure_loop_same_Some[OF _ same_eps_sym[OF assms]]
      by (simp add: dfa_epsilon_closure_def)
    then show ?thesis using None by simp
  qed
next
  case (Some y)
  then show ?thesis using closure_loop_same_Some[OF _ assms]
    by (simp add: dfa_epsilon_closure_def)
qed

lemma closure_of_all_same:
  assumes "same_eps nfa nfa'"
  shows "closure_of_all nfa' ts acc = closure_of_all nfa ts acc"
  by (induction ts arbitrary: acc)
     (auto simp: closure_same[OF assms] split: option.splits sum.splits)

lemma closure_of_all_set:
  assumes "closure_of_all nfa ts acc = Some (Inr r)"
  shows "set r = set acc \<union> (\<Union>t\<in>set ts. eps_closure_set nfa t)"
  using assms
proof (induction ts arbitrary: acc)
  case Nil
  then show ?case by simp
next
  case (Cons t ts)
  from Cons.prems obtain c where c: "dfa_epsilon_closure nfa t = Some (Inr c)"
    and rest: "closure_of_all nfa ts (set_union acc c) = Some (Inr r)"
    by (auto split: option.splits sum.splits)
  have "eps_closure_set nfa t = set c" by (simp add: eps_closure_set_def c)
  then show ?case using Cons.IH[OF rest] by (auto simp: set_set_union)
qed

lemma eps_closure_set_same:
  "same_eps nfa nfa' \<Longrightarrow> eps_closure_set nfa' t = eps_closure_set nfa t"
  by (simp add: eps_closure_set_def closure_same)

lemma targets_of_store:
  "targets_of (store_transitions nfa r l ts) i a =
     (if r = St i \<and> i < length (l_states nfa) \<and> a = l then Some ts else targets_of nfa i a)"
proof (cases r)
  case Start
  then show ?thesis by (simp add: targets_of_def store_transitions_def)
next
  case (St j)
  show ?thesis
  proof (cases "j < length (l_states nfa)")
    case True
    then show ?thesis
      by (auto simp: targets_of_def store_transitions_def St nth_list_update update_conv')
  next
    case False
    then show ?thesis
      by (auto simp: targets_of_def store_transitions_def St list_update_beyond not_less)
  qed
qed

lemma length_store: "length (l_states (store_transitions nfa r l ts)) = length (l_states nfa)"
  by (cases r) (simp_all add: store_transitions_def)

lemma reachable_loop_effect:
  assumes "get_reachable_states_loop T l (R0, cur) = Some (Inr (R, nfa'))"
    and "same_eps nfa cur" and "l \<noteq> EPSILON" and "distinct T"
  shows "(\<forall>i ts. St i \<in> set T \<longrightarrow> i < length (l_states cur) \<longrightarrow> targets_of cur i l = Some ts \<longrightarrow>
            (\<exists>ts'. targets_of nfa' i l = Some ts' \<and>
                    set ts' = set ts \<union> (\<Union>t\<in>set ts. eps_closure_set nfa t))) \<and>
         (\<forall>i. St i \<notin> set T \<longrightarrow> targets_of nfa' i l = targets_of cur i l)"
  using assms
proof (induction T arbitrary: R0 cur)
  case Nil
  then show ?case by simp
next
  case (Cons s rest)
  note se = \<open>same_eps nfa cur\<close> and ne = \<open>l \<noteq> EPSILON\<close>
  have dr: "distinct rest" and sr: "s \<notin> set rest" using Cons.prems(4) by auto
  show ?case
  proof (cases "map_of (transitions_of cur s) l")
    case None
    have run: "get_reachable_states_loop rest l (R0, cur) = Some (Inr (R, nfa'))"
      using Cons.prems(1) None by simp
    note IH = Cons.IH[OF run se ne dr]
    have no: "targets_of cur i l = None" if "s = St i" for i
      using None that by (simp add: targets_of_def transitions_of_def)
    show ?thesis
    proof (intro conjI allI impI)
      fix i ts
      assume "St i \<in> set (s # rest)" "i < length (l_states cur)" "targets_of cur i l = Some ts"
      then show "\<exists>ts'. targets_of nfa' i l = Some ts' \<and>
                    set ts' = set ts \<union> (\<Union>t\<in>set ts. eps_closure_set nfa t)"
        using IH no[of i] by auto
    next
      fix i assume "St i \<notin> set (s # rest)"
      then show "targets_of nfa' i l = targets_of cur i l" using IH by simp
    qed
  next
    case (Some curr)
    from Cons.prems(1) Some obtain nxt where
      nxt: "closure_of_all cur curr [] = Some (Inr nxt)" and
      run: "get_reachable_states_loop rest l
              (set_union R0 (set_union curr nxt),
               store_transitions cur s l (set_union curr nxt)) = Some (Inr (R, nfa'))"
      by (auto simp: Let_def split: option.splits sum.splits)
    let ?cur2 = "store_transitions cur s l (set_union curr nxt)"
    have se2: "same_eps nfa ?cur2" using same_eps_trans[OF se same_eps_store[OF ne]] .
    note IH = Cons.IH[OF run se2 ne dr]
    have cl: "set (set_union curr nxt) = set curr \<union> (\<Union>t\<in>set curr. eps_closure_set nfa t)"
      using closure_of_all_set[OF nxt] eps_closure_set_same[OF se]
      by (simp add: set_set_union)
    show ?thesis
    proof (intro conjI allI impI)
      fix i ts
      assume mem: "St i \<in> set (s # rest)" and lt: "i < length (l_states cur)"
        and tg: "targets_of cur i l = Some ts"
      show "\<exists>ts'. targets_of nfa' i l = Some ts' \<and>
                    set ts' = set ts \<union> (\<Union>t\<in>set ts. eps_closure_set nfa t)"
      proof (cases "s = St i")
        case True
        have "ts = curr" using Some tg True by (simp add: targets_of_def transitions_of_def)
        moreover have "St i \<notin> set rest" using sr True by simp
        then have "targets_of nfa' i l = targets_of ?cur2 i l" using IH by simp
        then have "targets_of nfa' i l = Some (set_union curr nxt)"
          using True lt by (simp add: targets_of_store)
        ultimately show ?thesis using cl by simp
      next
        case False
        then have "St i \<in> set rest" using mem by auto
        moreover have "targets_of ?cur2 i l = Some ts" using False tg by (auto simp: targets_of_store)
        moreover have "i < length (l_states ?cur2)" using lt by (simp add: length_store)
        ultimately show ?thesis using IH by blast
      qed
    next
      fix i assume "St i \<notin> set (s # rest)"
      then have "St i \<notin> set rest" "s \<noteq> St i" by auto
      then show "targets_of nfa' i l = targets_of cur i l"
        using IH by (auto simp: targets_of_store)
    qed
  qed
qed

lemma nfa_grows_refl: "nfa_grows nfa nfa"
  by (simp add: nfa_grows_def)

lemma nfa_grows_trans: "nfa_grows a b \<Longrightarrow> nfa_grows b c \<Longrightarrow> nfa_grows a c"
  unfolding nfa_grows_def by (metis subset_trans)

lemma nfa_grows_store:
  assumes "map_of (transitions_of nfa r) l = Some ts" and "set ts \<subseteq> set ts'"
  shows "nfa_grows nfa (store_transitions nfa r l ts')"
  unfolding nfa_grows_def
proof (intro conjI allI impI)
  show "length (l_states (store_transitions nfa r l ts')) = length (l_states nfa)"
    by (rule length_store)
next
  fix i a us
  assume lt: "i < length (l_states nfa)" and tg: "targets_of nfa i a = Some us"
  show "\<exists>us'. targets_of (store_transitions nfa r l ts') i a = Some us' \<and> set us \<subseteq> set us'"
  proof (cases "r = St i \<and> a = l")
    case True
    then have "us = ts" using assms(1) tg by (simp add: targets_of_def transitions_of_def)
    then show ?thesis using True lt assms(2) by (simp add: targets_of_store)
  next
    case False
    then show ?thesis using tg by (auto simp: targets_of_store)
  qed
qed

lemma reachable_loop_grows:
  assumes "get_reachable_states_loop T l (R0, cur) = Some (Inr (R, nfa'))"
  shows "nfa_grows cur nfa'"
  using assms
proof (induction T arbitrary: R0 cur)
  case Nil
  then show ?case by (simp add: nfa_grows_refl)
next
  case (Cons s rest)
  show ?case
  proof (cases "map_of (transitions_of cur s) l")
    case None
    then show ?thesis using Cons by simp
  next
    case (Some curr)
    from Cons.prems Some obtain nxt where
      run: "get_reachable_states_loop rest l
              (set_union R0 (set_union curr nxt),
               store_transitions cur s l (set_union curr nxt)) = Some (Inr (R, nfa'))"
      by (auto simp: Let_def split: option.splits sum.splits)
    have "nfa_grows cur (store_transitions cur s l (set_union curr nxt))"
      by (rule nfa_grows_store[OF Some]) (simp add: set_set_union)
    then show ?thesis using Cons.IH[OF run] nfa_grows_trans by blast
  qed
qed

lemma explore_actions_grows:
  assumes "explore_actions io q acts (stack, self) = Some (Inr (stack', self'))"
  shows "nfa_grows (dfa_nfa self) (dfa_nfa self')"
  using assms
proof (induction acts arbitrary: stack self)
  case Nil
  then show ?case by (simp add: nfa_grows_refl)
next
  case (Cons action rest)
  from Cons.prems obtain reachable nfa1 where
    g: "get_reachable_states (dfa_nfa self) q action = Some (Inr (reachable, nfa1))"
    by (auto split: option.splits sum.splits)
  have g1: "nfa_grows (dfa_nfa self) nfa1"
    using g reachable_loop_grows by (simp add: get_reachable_states_def)
  from Cons.prems g obtain stack2 self2 where
    run: "explore_actions io q rest (stack2, self2) = Some (Inr (stack', self'))"
    and n2: "dfa_nfa self2 = nfa1"
    by (auto simp: Let_def split: if_splits)
  show ?case using Cons.IH[OF run] g1 n2 nfa_grows_trans by blast
qed

lemma construct_DFA_loop_grows:
  assumes "construct_DFA_loop io stack self = Some y"
  shows "\<forall>D. y = Inr D \<longrightarrow> nfa_grows (dfa_nfa self) (dfa_nfa D)"
  using assms
proof (induction rule: construct_DFA_loop.raw_induct[rotated 1, consumes 1])
  case (1 loop io stack self y)
  show ?case
  proof (cases "stack = []")
    case True
    then show ?thesis using "1.hyps" by (auto simp: nfa_grows_refl)
  next
    case False
    show ?thesis
    proof (intro allI impI)
      fix D assume y: "y = Inr D"
      from "1.hyps" False obtain r where
        er: "explore_actions io (last stack) (actions self) (butlast stack, self) = Some r"
        and cr: "(case r of Inl e \<Rightarrow> Some (Inl e)
                  | Inr (stack', self') \<Rightarrow> loop io stack' self') = Some y"
        by (auto simp: bind_eq_Some_conv)
      from cr y obtain stack2 self2 where r: "r = Inr (stack2, self2)"
        and l: "loop io stack2 self2 = Some (Inr D)"
        by (cases r) auto
      note e = er[unfolded r]
      from "1.IH"[OF l] have "nfa_grows (dfa_nfa self2) (dfa_nfa D)" by simp
      then show "nfa_grows (dfa_nfa self) (dfa_nfa D)"
        using explore_actions_grows[OF e] nfa_grows_trans by blast
    qed
  qed
qed

lemma construct_DFA_grows:
  assumes "load_NFA_json data = Inr (nfa0, acts)" and "construct_DFA io data = Some (Inr D)"
  shows "nfa_grows nfa0 (dfa_nfa D)"
proof -
  from assms obtain c where
    "construct_DFA_loop io [new_DFA_State io nfa0 c False]
        \<lparr>dfa_nfa = nfa0, dfa_states = [new_DFA_State io nfa0 c False],
         dfa_start_state = Some (new_DFA_State io nfa0 c False),
         dfa_final_states = [], actions = acts, dfa_transitions = []\<rparr> = Some (Inr D)"
    by (auto simp: construct_DFA_def Let_def split: option.splits sum.splits)
  from construct_DFA_loop_grows[OF this] show ?thesis by simp
qed

lemma astar_reachable:
  "get_reachable_states astar_nfa astar_start (py ''a'') =
     Some (Inr ([St 1, St 2, St 3, St 0], astar_nfa_after))"
  by code_simp

lemma astar_closure: "dfa_epsilon_closure astar_nfa (St 1) = Some (Inr [St 1, St 2, St 3, St 0])"
  by code_simp

lemma astar_targets: "targets_of astar_nfa 0 (py ''a'') = Some [St 1]"
  by code_simp

lemma astar_pipeline:
  "(case regex_to_json (py ''a*'') of
      Some (Result data) \<Rightarrow>
        load_NFA_json data = Inr (astar_nfa, [py ''a'']) \<and>
        (case construct_DFA (\<lambda>xs. xs) data of
           Some (Inr D) \<Rightarrow> dfa_nfa D = astar_nfa_after \<and> dfa_start_state D = Some astar_start
         | _ \<Rightarrow> False)
    | _ \<Rightarrow> False)"
  by code_simp

section \<open>The epsilon closure and the subset construction return\<close>

lemma push_inner_spec:
  "\<exists>new. fold (\<lambda>target (a, st). if target \<notin> set a \<and> action = EPSILON
                                  then (set_add a target, st @ [target]) else (a, st)) ts (al, st)
           = (al @ new, st @ new) \<and>
         distinct new \<and> set new \<inter> set al = {} \<and> set new \<subseteq> set ts"
proof (induction ts arbitrary: al st)
  case Nil
  show ?case by simp
next
  case (Cons t ts)
  show ?case
  proof (cases "t \<notin> set al \<and> action = EPSILON")
    case True
    from Cons.IH[of "al @ [t]" "st @ [t]"] obtain new where
      n: "fold (\<lambda>target (a, st). if target \<notin> set a \<and> action = EPSILON
                                  then (set_add a target, st @ [target]) else (a, st)) ts
            (al @ [t], st @ [t]) = ((al @ [t]) @ new, (st @ [t]) @ new)"
      "distinct new" "set new \<inter> set (al @ [t]) = {}" "set new \<subseteq> set ts"
      by blast
    have "distinct (t # new)" "set (t # new) \<inter> set al = {}" "set (t # new) \<subseteq> set (t # ts)"
      using n(2-4) True by auto
    then show ?thesis using n(1) True
      by (intro exI[of _ "t # new"]) (simp add: set_add_def)
  next
    case False
    from Cons.IH[of al st] obtain new where
      n: "fold (\<lambda>target (a, st). if target \<notin> set a \<and> action = EPSILON
                                  then (set_add a target, st @ [target]) else (a, st)) ts
            (al, st) = (al @ new, st @ new)"
      "distinct new" "set new \<inter> set al = {}" "set new \<subseteq> set ts"
      by blast
    then show ?thesis using False by (intro exI[of _ new]) auto
  qed
qed

lemma push_spec:
  "\<exists>new. push_epsilon_targets entries (al, st) = (al @ new, st @ new) \<and>
         distinct new \<and> set new \<inter> set al = {} \<and>
         set new \<subseteq> (\<Union>e\<in>set entries. set (snd e))"
proof (induction entries arbitrary: al st)
  case Nil
  show ?case by (simp add: push_epsilon_targets_def)
next
  case (Cons e entries)
  obtain action ts where e: "e = (action, ts)" by (cases e)
  from push_inner_spec[of action ts al st] obtain n1 where
    n1: "fold (\<lambda>target (a, st). if target \<notin> set a \<and> action = EPSILON
                                  then (set_add a target, st @ [target]) else (a, st)) ts (al, st)
           = (al @ n1, st @ n1)"
    "distinct n1" "set n1 \<inter> set al = {}" "set n1 \<subseteq> set ts"
    by blast
  from Cons.IH[of "al @ n1" "st @ n1"] obtain n2 where
    n2: "push_epsilon_targets entries (al @ n1, st @ n1) = ((al @ n1) @ n2, (st @ n1) @ n2)"
    "distinct n2" "set n2 \<inter> set (al @ n1) = {}"
    "set n2 \<subseteq> (\<Union>e\<in>set entries. set (snd e))"
    by blast
  have step: "push_epsilon_targets (e # entries) (al, st) = (al @ (n1 @ n2), st @ (n1 @ n2))"
    using n1(1) n2(1) by (simp add: push_epsilon_targets_def e)
  have "distinct (n1 @ n2)" "set (n1 @ n2) \<inter> set al = {}"
    "set (n1 @ n2) \<subseteq> (\<Union>e\<in>set (e # entries). set (snd e))"
    using n1(2-4) n2(2-4) e by auto
  then show ?case using step by blast
qed

lemma valid_sref_id:
  "names_valid nfa \<Longrightarrow> valid_ref nfa r \<Longrightarrow> sref_id nfa r < length (l_states nfa)"
  by (cases r) (auto simp: names_valid_def valid_ref_def sref_id_def)

lemma finite_valid_refs: "finite {r. valid_ref nfa r}"
proof -
  have "r \<in> insert Start (St ` {..<length (l_states nfa)})" if "valid_ref nfa r" for r
    using that by (cases r) (auto simp: valid_ref_def)
  then have "{r. valid_ref nfa r} \<subseteq> insert Start (St ` {..<length (l_states nfa)})"
    by blast
  then show ?thesis by (rule finite_subset) simp
qed

lemma closure_loop_returns:
  assumes tv: "targets_valid nfa"
  shows "(\<forall>x\<in>set al. valid_ref nfa x) \<Longrightarrow> set st \<subseteq> set al \<Longrightarrow>
         \<exists>r. dfa_epsilon_closure_loop nfa al st = Some r \<and>
             (case r of
                Inr c \<Rightarrow> set al \<subseteq> set c \<and> (\<forall>x\<in>set c. valid_ref nfa x) \<and> (distinct al \<longrightarrow> distinct c)
              | Inl e \<Rightarrow> \<not> names_valid nfa)"
proof (induction "card ({r. valid_ref nfa r} - set al)" arbitrary: al st rule: less_induct)
  case outer: less
  show ?case using outer.prems
  proof (induction "length st" arbitrary: st rule: less_induct)
    case inner: less
    note val = inner.prems(1) and sub = inner.prems(2)
    show ?case
    proof (cases "st = []")
      case True
      then have "dfa_epsilon_closure_loop nfa al st = Some (Inr al)"
        by (subst dfa_epsilon_closure_loop.simps) simp
      then show ?thesis using val by simp
    next
      case ne: False
      let ?i = "sref_id nfa (last st)"
      have lv: "valid_ref nfa (last st)" using ne sub val last_in_set by blast
      show ?thesis
      proof (cases "length (l_states nfa) \<le> ?i")
        case True
        then have "dfa_epsilon_closure_loop nfa al st = Some (Inl IndexError)"
          using ne by (subst dfa_epsilon_closure_loop.simps) (simp add: Let_def)
        moreover have "\<not> names_valid nfa" using True valid_sref_id[OF _ lv] by force
        ultimately show ?thesis by simp
      next
        case False
        then have ilt: "?i < length (l_states nfa)" by simp
        from push_spec[of "l_transitions (l_states nfa ! ?i)" al "butlast st"] obtain new where
          p: "push_epsilon_targets (l_transitions (l_states nfa ! ?i)) (al, butlast st)
                = (al @ new, butlast st @ new)"
          and dn: "distinct new" and di: "set new \<inter> set al = {}"
          and sn: "set new \<subseteq> (\<Union>e\<in>set (l_transitions (l_states nfa ! ?i)). set (snd e))"
          by blast
        have nv: "\<forall>x\<in>set new. valid_ref nfa x"
          using sn tv ilt unfolding targets_valid_def by blast
        have eq: "dfa_epsilon_closure_loop nfa al st
                  = dfa_epsilon_closure_loop nfa (al @ new) (butlast st @ new)"
          using ne False p by (subst dfa_epsilon_closure_loop.simps) (simp add: Let_def)
        have val': "\<forall>x\<in>set (al @ new). valid_ref nfa x" using val nv by auto
        have sub': "set (butlast st @ new) \<subseteq> set (al @ new)"
          using sub in_set_butlastD by fastforce
        show ?thesis
        proof (cases "new = []")
          case True
          have "length (butlast st) < length st" using ne by simp
          from inner.hyps[OF this] val sub' True
          obtain r where r: "dfa_epsilon_closure_loop nfa al (butlast st) = Some r"
            "case r of
                Inr c \<Rightarrow> set al \<subseteq> set c \<and> (\<forall>x\<in>set c. valid_ref nfa x) \<and> (distinct al \<longrightarrow> distinct c)
              | Inl e \<Rightarrow> \<not> names_valid nfa"
            by auto
          then show ?thesis using eq True by simp
        next
          case nn: False
          then obtain x where x: "x \<in> set new" by (cases new) auto
          have "x \<in> {r. valid_ref nfa r} - set al" using x nv di by auto
          moreover have "x \<notin> {r. valid_ref nfa r} - set (al @ new)" using x by simp
          moreover have "{r. valid_ref nfa r} - set (al @ new) \<subseteq> {r. valid_ref nfa r} - set al"
            by auto
          ultimately have "{r. valid_ref nfa r} - set (al @ new) \<subset> {r. valid_ref nfa r} - set al"
            by blast
          then have "card ({r. valid_ref nfa r} - set (al @ new)) < card ({r. valid_ref nfa r} - set al)"
            using finite_valid_refs[of nfa] by (intro psubset_card_mono) auto
          from outer.hyps[OF this val' sub']
          obtain r where r: "dfa_epsilon_closure_loop nfa (al @ new) (butlast st @ new) = Some r"
            "case r of
                Inr c \<Rightarrow> set (al @ new) \<subseteq> set c \<and> (\<forall>x\<in>set c. valid_ref nfa x) \<and>
                         (distinct (al @ new) \<longrightarrow> distinct c)
              | Inl e \<Rightarrow> \<not> names_valid nfa"
            by auto
          have "distinct al \<Longrightarrow> distinct (al @ new)" using dn di by auto
          then show ?thesis using eq r by (cases r) auto
        qed
      qed
    qed
  qed
qed

lemma closure_returns:
  assumes "targets_valid nfa" and "valid_ref nfa t"
  shows "\<exists>r. dfa_epsilon_closure nfa t = Some r \<and>
             (case r of
                Inr c \<Rightarrow> t \<in> set c \<and> (\<forall>x\<in>set c. valid_ref nfa x) \<and> distinct c
              | Inl e \<Rightarrow> \<not> names_valid nfa)"
proof -
  from closure_loop_returns[OF assms(1), of "[t]" "[t]"] assms(2)
  obtain r where r: "dfa_epsilon_closure_loop nfa [t] [t] = Some r"
    "case r of
       Inr c \<Rightarrow> set [t] \<subseteq> set c \<and> (\<forall>x\<in>set c. valid_ref nfa x) \<and> (distinct [t] \<longrightarrow> distinct c)
     | Inl e \<Rightarrow> \<not> names_valid nfa"
    by auto
  then show ?thesis by (cases r) (auto simp: dfa_epsilon_closure_def)
qed

lemma same_names_refl: "same_names nfa nfa"
  by (simp add: same_names_def)

lemma same_names_trans: "same_names a b \<Longrightarrow> same_names b c \<Longrightarrow> same_names a c"
  by (simp add: same_names_def)

lemma same_names_store: "same_names nfa (store_transitions nfa r l ts)"
  by (cases r) (simp_all add: same_names_def store_transitions_def nth_update_field)

lemma same_names_valid_ref: "same_names nfa nfa' \<Longrightarrow> valid_ref nfa' r = valid_ref nfa r"
  by (cases r) (simp_all add: same_names_def valid_ref_def)

lemma targets_validD1:
  "targets_valid nfa \<Longrightarrow> i < length (l_states nfa) \<Longrightarrow> e \<in> set (l_transitions (l_states nfa ! i)) \<Longrightarrow>
   t \<in> set (snd e) \<Longrightarrow> valid_ref nfa t"
  unfolding targets_valid_def by blast

lemma targets_validD2:
  "targets_valid nfa \<Longrightarrow> e \<in> set (l_transitions (l_start_state nfa)) \<Longrightarrow>
   t \<in> set (snd e) \<Longrightarrow> valid_ref nfa t"
  unfolding targets_valid_def by blast

lemma same_names_names_valid: "same_names nfa nfa' \<Longrightarrow> names_valid nfa' = names_valid nfa"
  by (simp add: same_names_def names_valid_def)

lemma in_set_update: "e \<in> set (AList.update k v al) \<Longrightarrow> e = (k, v) \<or> e \<in> set al"
  by (induction al) (auto split: if_splits)

lemma targets_valid_store:
  assumes tv: "targets_valid nfa" and ts: "\<forall>t\<in>set ts. valid_ref nfa t"
  shows "targets_valid (store_transitions nfa r l ts)"
proof -
  let ?n = "store_transitions nfa r l ts"
  have vr: "valid_ref ?n t = valid_ref nfa t" for t
    by (rule same_names_valid_ref[OF same_names_store])
  have len: "length (l_states ?n) = length (l_states nfa)" by (rule length_store)
  have st: "valid_ref nfa t"
    if "i < length (l_states nfa)" "e \<in> set (l_transitions (l_states ?n ! i))" "t \<in> set (snd e)"
    for i e t
  proof (cases "r = St i")
    case True
    then have "l_transitions (l_states ?n ! i) = AList.update l ts (l_transitions (l_states nfa ! i))"
      using that(1) by (simp add: store_transitions_def)
    then have "e = (l, ts) \<or> e \<in> set (l_transitions (l_states nfa ! i))"
      using that(2) in_set_update by metis
    then show ?thesis using that(1,3) ts targets_validD1[OF tv that(1)] by (cases e) auto
  next
    case False
    then have "l_transitions (l_states ?n ! i) = l_transitions (l_states nfa ! i)"
      by (cases r) (auto simp: store_transitions_def nth_list_update list_update_beyond not_less)
    then show ?thesis using that targets_validD1[OF tv that(1)] by (cases e) auto
  qed
  have ss: "valid_ref nfa t"
    if "e \<in> set (l_transitions (l_start_state ?n))" "t \<in> set (snd e)" for e t
  proof (cases r)
    case Start
    then have "l_transitions (l_start_state ?n) = AList.update l ts (l_transitions (l_start_state nfa))"
      by (simp add: store_transitions_def)
    then have "e = (l, ts) \<or> e \<in> set (l_transitions (l_start_state nfa))"
      using that(1) in_set_update by metis
    then show ?thesis using that(2) ts targets_validD2[OF tv] by (cases e) auto
  next
    case (St j)
    then have "l_transitions (l_start_state ?n) = l_transitions (l_start_state nfa)"
      by (simp add: store_transitions_def)
    then show ?thesis using that targets_validD2[OF tv] by (cases e) auto
  qed
  show ?thesis unfolding targets_valid_def using st ss by (simp add: vr len)
qed

lemma stored_targets_valid:
  assumes "targets_valid nfa" and "valid_ref nfa s" and "map_of (transitions_of nfa s) l = Some ts"
  shows "\<forall>t\<in>set ts. valid_ref nfa t"
proof -
  have m: "(l, ts) \<in> set (transitions_of nfa s)" using assms(3) by (rule map_of_SomeD)
  show ?thesis
  proof (cases s)
    case Start
    then show ?thesis using m targets_validD2[OF assms(1)] by (fastforce simp: transitions_of_def)
  next
    case (St j)
    then have "j < length (l_states nfa)" using assms(2) by (simp add: valid_ref_def)
    then show ?thesis using St m targets_validD1[OF assms(1)] by (fastforce simp: transitions_of_def)
  qed
qed

lemma closure_of_all_returns:
  assumes "targets_valid nfa"
  shows "(\<forall>t\<in>set ts. valid_ref nfa t) \<Longrightarrow> (\<forall>x\<in>set acc. valid_ref nfa x) \<Longrightarrow>
         \<exists>r. closure_of_all nfa ts acc = Some r \<and>
             (case r of Inr c \<Rightarrow> (\<forall>x\<in>set c. valid_ref nfa x) | Inl e \<Rightarrow> \<not> names_valid nfa)"
proof (induction ts arbitrary: acc)
  case Nil
  then show ?case by simp
next
  case (Cons t ts)
  from closure_returns[OF assms, of t] Cons.prems(1)
  obtain r where r: "dfa_epsilon_closure nfa t = Some r"
    "case r of Inr c \<Rightarrow> t \<in> set c \<and> (\<forall>x\<in>set c. valid_ref nfa x) \<and> distinct c
             | Inl e \<Rightarrow> \<not> names_valid nfa"
    by auto
  show ?case
  proof (cases r)
    case (Inl e)
    then show ?thesis using r by simp
  next
    case (Inr c)
    then have "\<forall>x\<in>set (set_union acc c). valid_ref nfa x"
      using r(2) Cons.prems(2) by (auto simp: set_set_union)
    from Cons.IH[OF _ this] Cons.prems(1) show ?thesis using r(1) Inr by simp
  qed
qed

lemma reachable_loop_returns:
  "targets_valid cur \<Longrightarrow> (\<forall>s\<in>set T. valid_ref cur s) \<Longrightarrow> (\<forall>x\<in>set R0. valid_ref cur x) \<Longrightarrow>
   \<exists>r. get_reachable_states_loop T l (R0, cur) = Some r \<and>
       (case r of
          Inr (R, nfa') \<Rightarrow> targets_valid nfa' \<and> same_names cur nfa' \<and> (\<forall>x\<in>set R. valid_ref cur x)
        | Inl e \<Rightarrow> \<not> names_valid cur)"
proof (induction T arbitrary: R0 cur)
  case Nil
  then show ?case by (simp add: same_names_refl)
next
  case (Cons s rest)
  note tv = Cons.prems(1) and vT = Cons.prems(2) and vR = Cons.prems(3)
  show ?case
  proof (cases "map_of (transitions_of cur s) l")
    case None
    from Cons.IH[OF tv _ vR] vT show ?thesis using None by simp
  next
    case (Some curr)
    have vc: "\<forall>t\<in>set curr. valid_ref cur t"
      using stored_targets_valid[OF tv _ Some] vT by simp
    from closure_of_all_returns[OF tv vc, of "[]"]
    obtain r1 where r1: "closure_of_all cur curr [] = Some r1"
      "case r1 of Inr c \<Rightarrow> (\<forall>x\<in>set c. valid_ref cur x) | Inl e \<Rightarrow> \<not> names_valid cur"
      by auto
    show ?thesis
    proof (cases r1)
      case (Inl e)
      then show ?thesis using r1 Some by simp
    next
      case (Inr nxt)
      let ?c' = "set_union curr nxt"
      let ?cur2 = "store_transitions cur s l ?c'"
      have vc': "\<forall>t\<in>set ?c'. valid_ref cur t" using vc r1(2) Inr by (auto simp: set_set_union)
      have tv2: "targets_valid ?cur2" by (rule targets_valid_store[OF tv vc'])
      have sn: "same_names cur ?cur2" by (rule same_names_store)
      have v2: "valid_ref ?cur2 x = valid_ref cur x" for x by (rule same_names_valid_ref[OF sn])
      have vT2: "\<forall>s\<in>set rest. valid_ref ?cur2 s" using vT by (simp add: v2)
      have vR2: "\<forall>x\<in>set (set_union R0 ?c'). valid_ref ?cur2 x"
        using vR vc' by (auto simp: set_set_union v2)
      from Cons.IH[OF tv2 vT2 vR2]
      obtain r where r: "get_reachable_states_loop rest l (set_union R0 ?c', ?cur2) = Some r"
        "case r of
          Inr (R, nfa') \<Rightarrow> targets_valid nfa' \<and> same_names ?cur2 nfa' \<and> (\<forall>x\<in>set R. valid_ref ?cur2 x)
        | Inl e \<Rightarrow> \<not> names_valid ?cur2"
        by blast
      have eq: "get_reachable_states_loop (s # rest) l (R0, cur) = Some r"
        using Some r1(1) Inr r(1) by (simp add: Let_def)
      show ?thesis
      proof (cases r)
        case (Inl e)
        then show ?thesis using eq r(2) same_names_names_valid[OF sn] by simp
      next
        case (Inr p)
        obtain R nfa' where p: "p = (R, nfa')" by (cases p)
        show ?thesis using eq r(2) Inr p same_names_trans[OF sn] by (auto simp: v2)
      qed
    qed
  qed
qed

section \<open>Subset construction returns\<close>

lemma same_names_name_set: "same_names nfa nfa' \<Longrightarrow> name_set nfa' = name_set nfa"
  by (simp add: same_names_def name_set_def)

lemma same_names_possible_ids: "same_names nfa nfa' \<Longrightarrow> possible_ids io nfa' = possible_ids io nfa"
  by (simp add: possible_ids_def same_names_name_set)

lemma same_names_stack_valid: "same_names nfa nfa' \<Longrightarrow> stack_valid nfa' st = stack_valid nfa st"
  by (simp add: stack_valid_def same_names_valid_ref)

lemma finite_possible_ids: "finite (possible_ids io nfa)"
proof -
  have "finite (name_set nfa)" by (simp add: name_set_def)
  then have "finite {xs. set xs \<subseteq> name_set nfa \<and> distinct xs}" by (rule finite_subset_distinct)
  then show ?thesis by (simp add: possible_ids_def)
qed

lemma inserted_ids_fold:
  "distinct acc \<Longrightarrow>
   distinct (fold (\<lambda>s ids. set_add ids (sref_id nfa s)) sts acc) \<and>
   set (fold (\<lambda>s ids. set_add ids (sref_id nfa s)) sts acc) = set acc \<union> sref_id nfa ` set sts"
  by (induction sts arbitrary: acc) (auto simp: set_add_def)

lemma inserted_ids_spec:
  "distinct (inserted_ids nfa sts) \<and> set (inserted_ids nfa sts) = sref_id nfa ` set sts"
  using inserted_ids_fold[of "[]" nfa sts] by (simp add: inserted_ids_def)

lemma sref_id_in_name_set: "valid_ref nfa r \<Longrightarrow> sref_id nfa r \<in> name_set nfa"
  by (cases r) (auto simp: valid_ref_def sref_id_def name_set_def)

lemma new_state_id_possible:
  assumes "\<forall>x\<in>set sts. valid_ref nfa x"
  shows "d_id (new_DFA_State io nfa sts f) \<in> possible_ids io nfa"
proof -
  have "set (inserted_ids nfa sts) \<subseteq> name_set nfa"
    using assms inserted_ids_spec[of nfa sts] sref_id_in_name_set by auto
  then show ?thesis
    using inserted_ids_spec[of nfa sts]
    by (auto simp: new_DFA_State_def set_to_string_def possible_ids_def)
qed

lemma dfa_set_add_new:
  "\<not> list_ex (\<lambda>s. d_id x = d_id s) xs \<Longrightarrow> dfa_set_add xs x = xs @ [x]"
  by (auto simp: dfa_set_add_def dfa_state_eq_def list_ex_iff)

lemma set_dfa_set_add: "set (dfa_set_add xs x) \<subseteq> insert x (set xs)"
  by (auto simp: dfa_set_add_def)

lemma explore_step_error:
  assumes "get_reachable_states (dfa_nfa self) q a = Some (Inl e)"
  shows "explore_actions io q (a # rest) (stack, self) = Some (Inl e)"
  using assms by simp

lemma explore_step:
  assumes g: "get_reachable_states (dfa_nfa self) q a = Some (Inr (reach, nfa1))"
  shows "\<exists>stack2 self3.
           explore_actions io q (a # rest) (stack, self) = explore_actions io q rest (stack2, self3) \<and>
           dfa_nfa self3 = nfa1 \<and> actions self3 = actions self \<and>
           dfa_start_state self3 = dfa_start_state self \<and>
           ((stack2 = stack \<and> dfa_states self3 = dfa_states self \<and>
             dfa_final_states self3 = dfa_final_states self) \<or>
            (reach \<noteq> [] \<and>
             \<not> list_ex (\<lambda>s. d_id (new_DFA_State io nfa1 reach False) = d_id s) (dfa_states self) \<and>
             stack2 = stack @ [new_DFA_State io nfa1 reach False] \<and>
             dfa_states self3 = dfa_states self @ [new_DFA_State io nfa1 reach False] \<and>
             set (dfa_final_states self3)
               \<subseteq> insert (new_DFA_State io nfa1 reach False) (set (dfa_final_states self))))"
proof -
  let ?new = "new_DFA_State io nfa1 reach False"
  let ?self1 = "self\<lparr>dfa_nfa := nfa1\<rparr>"
  have ds: "\<And>r. d_states (new_DFA_State io nfa1 r False) = r" by (simp add: new_DFA_State_def)
  show ?thesis
  proof (cases "reach = []")
    case True
    have "explore_actions io q (a # rest) (stack, self) = explore_actions io q rest (stack, ?self1)"
      using g True by (simp add: ds Let_def)
    then show ?thesis by (intro exI[of _ stack] exI[of _ ?self1]) simp
  next
    case ne: False
    show ?thesis
    proof (cases "list_ex (\<lambda>s. d_id ?new = d_id s) (dfa_states self)")
      case True
      let ?self3 = "(if \<not> transition_in (q, ?new, a) (dfa_transitions ?self1)
                     then ?self1\<lparr>dfa_transitions := dfa_transitions ?self1 @ [(q, ?new, a)]\<rparr>
                     else ?self1)"
      have "explore_actions io q (a # rest) (stack, self) = explore_actions io q rest (stack, ?self3)"
        using g ne True by (simp add: ds Let_def)
      then show ?thesis by (intro exI[of _ stack] exI[of _ ?self3]) simp
    next
      case False
      let ?self2 = "?self1\<lparr>dfa_states := dfa_set_add (dfa_states ?self1) ?new,
                           dfa_final_states :=
                             (if (case l_final_state nfa1 of None \<Rightarrow> False
                                  | Some f \<Rightarrow> f \<in> set (d_states ?new))
                              then dfa_set_add (dfa_final_states ?self1) ?new
                              else dfa_final_states ?self1)\<rparr>"
      let ?self3 = "(if \<not> transition_in (q, ?new, a) (dfa_transitions ?self2)
                     then ?self2\<lparr>dfa_transitions := dfa_transitions ?self2 @ [(q, ?new, a)]\<rparr>
                     else ?self2)"
      have eq: "explore_actions io q (a # rest) (stack, self)
                = explore_actions io q rest (stack @ [?new], ?self3)"
        using g ne False by (simp add: ds Let_def)
      have st: "dfa_states ?self3 = dfa_states self @ [?new]"
        using dfa_set_add_new[OF False] by simp
      have fs: "set (dfa_final_states ?self3) \<subseteq> insert ?new (set (dfa_final_states self))"
        using set_dfa_set_add[of "dfa_final_states self" ?new] by auto
      show ?thesis using eq st fs ne False
        by (intro exI[of _ "stack @ [?new]"] exI[of _ ?self3]) simp
    qed
  qed
qed

lemma extends_refl: "targets_valid (dfa_nfa self) \<Longrightarrow> extends io self [] self"
  by (simp add: extends_def same_names_refl stack_valid_def)

lemma extends_trans:
  assumes a: "extends io s1 n1 s2" and b: "extends io s2 n2 s3"
  shows "extends io s1 (n1 @ n2) s3"
proof -
  have sn: "same_names (dfa_nfa s1) (dfa_nfa s2)" using a by (simp add: extends_def)
  have p: "possible_ids io (dfa_nfa s2) = possible_ids io (dfa_nfa s1)"
    by (rule same_names_possible_ids[OF sn])
  have v: "stack_valid (dfa_nfa s2) n2 = stack_valid (dfa_nfa s1) n2"
    by (rule same_names_stack_valid[OF sn])
  have "stack_valid (dfa_nfa s1) (n1 @ n2)"
    using a b v by (auto simp: extends_def stack_valid_def)
  moreover have "d_id ` set (n1 @ n2) \<subseteq> possible_ids io (dfa_nfa s1) - d_id ` set (dfa_states s1)"
    using a b p by (auto simp: extends_def)
  moreover have "set (dfa_final_states s3) \<subseteq> set (dfa_final_states s1) \<union> set (n1 @ n2)"
    using a b by (auto simp: extends_def)
  ultimately show ?thesis
    using a b same_names_trans[OF sn] by (simp add: extends_def)
qed

lemma explore_actions_returns:
  "targets_valid (dfa_nfa self) \<Longrightarrow> (\<forall>x\<in>set (d_states q). valid_ref (dfa_nfa self) x) \<Longrightarrow>
   \<exists>r. explore_actions io q acts (stack, self) = Some r \<and>
       (case r of
          Inl e \<Rightarrow> \<not> names_valid (dfa_nfa self)
        | Inr (stack', self') \<Rightarrow> \<exists>news. stack' = stack @ news \<and> extends io self news self')"
proof (induction acts arbitrary: stack self)
  case Nil
  then show ?case by (simp add: extends_refl)
next
  case (Cons a rest)
  note tv = Cons.prems(1) and vq = Cons.prems(2)
  from reachable_loop_returns[OF tv, of "d_states q" "[]" a] vq
  obtain r1 where r1: "get_reachable_states (dfa_nfa self) q a = Some r1"
    "case r1 of
       Inr (R, nfa') \<Rightarrow> targets_valid nfa' \<and> same_names (dfa_nfa self) nfa' \<and>
                        (\<forall>x\<in>set R. valid_ref (dfa_nfa self) x)
     | Inl e \<Rightarrow> \<not> names_valid (dfa_nfa self)"
    by (auto simp: get_reachable_states_def)
  show ?case
  proof (cases r1)
    case (Inl e)
    then show ?thesis using r1 explore_step_error[of self q a e io rest stack] by simp
  next
    case (Inr p)
    obtain reach nfa1 where p: "p = (reach, nfa1)" by (cases p)
    have tv1: "targets_valid nfa1" and sn: "same_names (dfa_nfa self) nfa1"
      and vr: "\<forall>x\<in>set reach. valid_ref (dfa_nfa self) x"
      using r1(2) Inr p by auto
    let ?new = "new_DFA_State io nfa1 reach False"
    from explore_step[OF r1(1)[unfolded Inr p], of io rest stack]
    obtain stack2 self3 where
      eq: "explore_actions io q (a # rest) (stack, self) = explore_actions io q rest (stack2, self3)"
      and n3: "dfa_nfa self3 = nfa1" and a3: "actions self3 = actions self"
      and s3: "dfa_start_state self3 = dfa_start_state self"
      and alt: "(stack2 = stack \<and> dfa_states self3 = dfa_states self \<and>
                 dfa_final_states self3 = dfa_final_states self) \<or>
                (reach \<noteq> [] \<and> \<not> list_ex (\<lambda>s. d_id ?new = d_id s) (dfa_states self) \<and>
                 stack2 = stack @ [?new] \<and> dfa_states self3 = dfa_states self @ [?new] \<and>
                 set (dfa_final_states self3) \<subseteq> insert ?new (set (dfa_final_states self)))"
      by blast
    have vq3: "\<forall>x\<in>set (d_states q). valid_ref (dfa_nfa self3) x"
      using vq same_names_valid_ref[OF sn] n3 by simp
    from Cons.IH[of self3 stack2] tv1 n3 vq3
    obtain r where r: "explore_actions io q rest (stack2, self3) = Some r"
      "case r of
          Inl e \<Rightarrow> \<not> names_valid (dfa_nfa self3)
        | Inr (stack', self') \<Rightarrow> \<exists>news. stack' = stack2 @ news \<and> extends io self3 news self'"
      by auto
    obtain n0 where n0: "stack2 = stack @ n0" "extends io self n0 self3"
    proof (cases "stack2 = stack \<and> dfa_states self3 = dfa_states self \<and>
                 dfa_final_states self3 = dfa_final_states self")
      case True
      then have "extends io self [] self3"
        using tv1 sn n3 a3 s3 by (simp add: extends_def stack_valid_def)
      then show ?thesis using True that[of "[]"] by simp
    next
      case False
      then have f: "reach \<noteq> []" "\<not> list_ex (\<lambda>s. d_id ?new = d_id s) (dfa_states self)"
        "stack2 = stack @ [?new]" "dfa_states self3 = dfa_states self @ [?new]"
        "set (dfa_final_states self3) \<subseteq> insert ?new (set (dfa_final_states self))"
        using alt by auto
      have "d_id ?new \<in> possible_ids io nfa1"
        using new_state_id_possible[of reach nfa1 io False] vr same_names_valid_ref[OF sn] by simp
      then have pid: "d_id ?new \<in> possible_ids io (dfa_nfa self)"
        using same_names_possible_ids[OF sn] by simp
      have nid: "d_id ?new \<notin> d_id ` set (dfa_states self)"
        using f(2) by (auto simp: list_ex_iff)
      have sv: "stack_valid (dfa_nfa self) [?new]"
        using vr by (simp add: stack_valid_def new_DFA_State_def)
      have "extends io self [?new] self3"
        using tv1 sn n3 a3 s3 f(4,5) pid nid sv by (auto simp: extends_def)
      then show ?thesis using f(3) that[of "[?new]"] by simp
    qed
    show ?thesis
    proof (cases r)
      case (Inl e)
      then show ?thesis using eq r same_names_names_valid[OF sn] n3 by simp
    next
      case (Inr p')
      obtain stack' self' where p': "p' = (stack', self')" by (cases p')
      from r(2) Inr p' obtain news where
        news: "stack' = stack2 @ news" "extends io self3 news self'" by auto
      have "stack' = stack @ (n0 @ news)" using news(1) n0(1) by simp
      moreover have "extends io self (n0 @ news) self'"
        by (rule extends_trans[OF n0(2) news(2)])
      ultimately show ?thesis using eq r(1) Inr p' by auto
    qed
  qed
qed

lemma extends_card:
  assumes e: "extends io self news self'" and ne: "news \<noteq> []"
  shows "card (possible_ids io (dfa_nfa self') - d_id ` set (dfa_states self'))
         < card (possible_ids io (dfa_nfa self) - d_id ` set (dfa_states self))"
proof -
  have sn: "same_names (dfa_nfa self) (dfa_nfa self')" using e by (simp add: extends_def)
  have p: "possible_ids io (dfa_nfa self') = possible_ids io (dfa_nfa self)"
    by (rule same_names_possible_ids[OF sn])
  obtain n where n: "n \<in> set news" using ne by (cases news) auto
  have ids: "d_id ` set news \<subseteq> possible_ids io (dfa_nfa self) - d_id ` set (dfa_states self)"
    and st: "dfa_states self' = dfa_states self @ news"
    using e by (simp_all add: extends_def)
  have a: "d_id n \<in> possible_ids io (dfa_nfa self) - d_id ` set (dfa_states self)"
    using ids n by auto
  have b: "d_id n \<notin> possible_ids io (dfa_nfa self) - d_id ` set (dfa_states self')"
    using st n by auto
  have "possible_ids io (dfa_nfa self) - d_id ` set (dfa_states self')
        \<subset> possible_ids io (dfa_nfa self) - d_id ` set (dfa_states self)"
    using a b st by auto
  then show ?thesis
    using p finite_possible_ids[of io "dfa_nfa self"] by (simp add: psubset_card_mono)
qed

lemma construct_DFA_loop_returns_aux:
  "targets_valid (dfa_nfa (snd p)) \<longrightarrow> stack_valid (dfa_nfa (snd p)) (fst p) \<longrightarrow>
   (\<exists>r. construct_DFA_loop io (fst p) (snd p) = Some r \<and>
        (case r of
           Inl e \<Rightarrow> \<not> names_valid (dfa_nfa (snd p))
         | Inr D \<Rightarrow> \<exists>news. extends io (snd p) news D))"
proof -
  define M :: "((DFA_State list \<times> DFA) \<times> (DFA_State list \<times> DFA)) set" where
    "M = measures [\<lambda>p. card (possible_ids io (dfa_nfa (snd p)) - d_id ` set (dfa_states (snd p))),
                   \<lambda>p. length (fst p)]"
  have wfM: "wf M" by (simp add: M_def)
  from wfM show ?thesis
  proof (induction p rule: wf_induct_rule)
    case (less p)
    obtain stack self where p: "p = (stack, self)" by (cases p)
    show ?case
    proof (intro impI)
      assume tv: "targets_valid (dfa_nfa (snd p))" and sv: "stack_valid (dfa_nfa (snd p)) (fst p)"
      show "\<exists>r. construct_DFA_loop io (fst p) (snd p) = Some r \<and>
        (case r of
           Inl e \<Rightarrow> \<not> names_valid (dfa_nfa (snd p))
         | Inr D \<Rightarrow> \<exists>news. extends io (snd p) news D)"
      proof (cases "stack = []")
        case True
        have "construct_DFA_loop io stack self = Some (Inr self)"
          using True by (subst construct_DFA_loop.simps) simp
        then show ?thesis using p tv extends_refl[of self io] by auto
      next
        case False
        have "last stack \<in> set stack" using False by simp
        then have lv: "\<forall>x\<in>set (d_states (last stack)). valid_ref (dfa_nfa self) x"
          using sv p unfolding stack_valid_def by auto
        from explore_actions_returns[of self "last stack" io "actions self" "butlast stack"] tv lv p
        obtain r where r: "explore_actions io (last stack) (actions self) (butlast stack, self) = Some r"
          "case r of
             Inl e \<Rightarrow> \<not> names_valid (dfa_nfa self)
           | Inr (stack', self') \<Rightarrow> \<exists>news. stack' = butlast stack @ news \<and> extends io self news self'"
          by auto
        show ?thesis
        proof (cases r)
          case (Inl e)
          have "construct_DFA_loop io stack self = Some (Inl e)"
            using False r(1) Inl by (subst construct_DFA_loop.simps) simp
          then show ?thesis using r(2) Inl p by simp
        next
          case (Inr q)
          obtain stack' self' where q: "q = (stack', self')" by (cases q)
          from r(2) Inr q obtain news where
            news: "stack' = butlast stack @ news" "extends io self news self'" by auto
          have eq: "construct_DFA_loop io stack self = construct_DFA_loop io stack' self'"
            using False r(1) Inr q by (subst construct_DFA_loop.simps) simp
          have sn: "same_names (dfa_nfa self) (dfa_nfa self')"
            and tv': "targets_valid (dfa_nfa self')"
            and svn: "stack_valid (dfa_nfa self) news"
            using news(2) by (simp_all add: extends_def)
          have "stack_valid (dfa_nfa self) (butlast stack)"
            using sv p in_set_butlastD[of _ stack] by (auto simp: stack_valid_def)
          then have "stack_valid (dfa_nfa self) stack'"
            using svn news(1) by (auto simp: stack_valid_def)
          then have sv': "stack_valid (dfa_nfa self') stack'"
            using same_names_stack_valid[OF sn] by simp
          have dec: "((stack', self'), p) \<in> M"
          proof (cases "news = []")
            case True
            have "dfa_states self' = dfa_states self"
              using news(2) True by (simp add: extends_def)
            moreover have "length stack' < length stack" using True news(1) False by simp
            ultimately show ?thesis
              using same_names_possible_ids[OF sn] p by (simp add: M_def)
          next
            case ne: False
            show ?thesis using extends_card[OF news(2) ne] p by (simp add: M_def)
          qed
          from less.IH[OF dec, unfolded fst_conv snd_conv] tv' sv'
          obtain r' where r': "construct_DFA_loop io stack' self' = Some r'"
            "case r' of
               Inl e \<Rightarrow> \<not> names_valid (dfa_nfa self')
             | Inr D \<Rightarrow> \<exists>news. extends io self' news D"
            by blast
          show ?thesis
          proof (cases r')
            case (Inl e)
            then show ?thesis using eq r' p same_names_names_valid[OF sn] by simp
          next
            case (Inr D)
            then obtain n2 where "extends io self' n2 D" using r'(2) by auto
            then have "extends io self (news @ n2) D" by (rule extends_trans[OF news(2)])
            then show ?thesis using eq r'(1) Inr p by auto
          qed
        qed
      qed
    qed
  qed
qed

lemma construct_DFA_loop_returns:
  assumes "targets_valid (dfa_nfa self)" and "stack_valid (dfa_nfa self) stack"
  shows "\<exists>r. construct_DFA_loop io stack self = Some r \<and>
        (case r of
           Inl e \<Rightarrow> \<not> names_valid (dfa_nfa self)
         | Inr D \<Rightarrow> \<exists>news. extends io self news D)"
  using construct_DFA_loop_returns_aux[of "(stack, self)" io, unfolded fst_conv snd_conv] assms
  by blast

section \<open>The loaded NFA is well formed\<close>

lemma refs_below_add:
  assumes "refs_below n st" and "t < n"
  shows "refs_below n (l_add_transition st a (St t))"
proof -
  let ?old = "case map_of (l_transitions st) a of None \<Rightarrow> [] | Some ts \<Rightarrow> ts"
  have old: "\<forall>x\<in>set ?old. case x of Start \<Rightarrow> True | St j \<Rightarrow> j < n"
  proof (cases "map_of (l_transitions st) a")
    case None
    then show ?thesis by simp
  next
    case (Some ts)
    then have "(a, ts) \<in> set (l_transitions st)" by (rule map_of_SomeD)
    then show ?thesis using assms(1) Some unfolding refs_below_def by fastforce
  qed
  show ?thesis
    unfolding refs_below_def
  proof (intro allI impI)
    fix e x
    assume e: "e \<in> set (l_transitions (l_add_transition st a (St t)))" and x: "x \<in> set (snd e)"
    from e have "e = (a, set_add ?old (St t)) \<or> e \<in> set (l_transitions st)"
      unfolding l_add_transition_def using in_set_update by fastforce
    then show "case x of Start \<Rightarrow> True | St j \<Rightarrow> j < n"
    proof
      assume "e = (a, set_add ?old (St t))"
      then have "x = St t \<or> x \<in> set ?old" using x by (simp add: set_set_add)
      then show ?thesis using old assms(2) by auto
    next
      assume "e \<in> set (l_transitions st)"
      then show ?thesis using assms(1) x unfolding refs_below_def by blast
    qed
  qed
qed

lemma lid_add_transition: "lid (l_add_transition st a t) = lid st"
  by (simp add: l_add_transition_def)

lemma loaded_step_refl: "loaded_step sts sts"
  by (simp add: loaded_step_def)

lemma loaded_step_trans: "loaded_step a b \<Longrightarrow> loaded_step b c \<Longrightarrow> loaded_step a c"
  by (simp add: loaded_step_def)

lemma loaded_step_update:
  assumes "t < length sts"
  shows "loaded_step sts (sts[cur := l_add_transition (sts ! cur) a (St t)])"
proof (cases "cur < length sts")
  case False
  then show ?thesis by (simp add: loaded_step_def list_update_beyond not_less)
next
  case True
  let ?v = "l_add_transition (sts ! cur) a (St t)"
  have m: "map lid (sts[cur := ?v]) = map lid sts"
    using True by (intro nth_equalityI) (auto simp: nth_list_update lid_add_transition)
  have "all_below (sts[cur := ?v])" if ab: "all_below sts"
    unfolding all_below_def
  proof (intro allI impI)
    fix st assume "st \<in> set (sts[cur := ?v])"
    then have "st = ?v \<or> st \<in> set sts"
      using set_update_subset_insert[of sts cur ?v] by auto
    moreover have "refs_below (length sts) ?v"
      using ab True assms refs_below_add[of "length sts" "sts ! cur" t a]
      by (auto simp: all_below_def)
    ultimately show "refs_below (length (sts[cur := ?v])) st"
      using ab by (auto simp: all_below_def)
  qed
  then show ?thesis using m by (simp add: loaded_step_def)
qed

lemma load_targets_step:
  "load_targets sts cur a ts = Inr sts' \<Longrightarrow> loaded_step sts sts'"
proof (induction ts arbitrary: sts)
  case Nil
  then show ?case by (simp add: loaded_step_refl)
next
  case (Cons t rest)
  from Cons.prems have lt: "t < length sts"
    and r: "load_targets (sts[cur := l_add_transition (sts ! cur) a (St t)]) cur a rest = Inr sts'"
    by (auto split: if_splits)
  show ?case
    by (rule loaded_step_trans[OF loaded_step_update[OF lt] Cons.IH[OF r]])
qed

lemma load_entries_step:
  "load_entries cur d (sts, acts) = Inr (sts', acts') \<Longrightarrow> loaded_step sts sts'"
proof (induction d arbitrary: sts acts)
  case Nil
  then show ?case by (simp add: loaded_step_refl)
next
  case (Cons e rest)
  obtain a tg where e: "e = (a, tg)" by (cases e)
  show ?case
  proof (cases "a = IS_TERMINATING")
    case True
    then show ?thesis using Cons.prems Cons.IH[of sts acts] e by simp
  next
    case False
    let ?r = "case tg of JNames l \<Rightarrow> load_targets sts cur a l
                | JName t \<Rightarrow> load_targets sts cur a [t]
                | JBool b \<Rightarrow> Inl PyTypeError"
    from Cons.prems e False obtain sts1 where
      r: "?r = Inr sts1"
      and n: "load_entries cur rest (sts1, if a \<noteq> EPSILON then acts @ [a] else acts) = Inr (sts', acts')"
      by (cases ?r) (simp_all)
    have "loaded_step sts sts1"
      using r load_targets_step[of sts cur a _ sts1] by (cases tg) (auto simp del: load_targets.simps)
    then show ?thesis using Cons.IH[OF n] loaded_step_trans by blast
  qed
qed

lemma load_transitions_step:
  "load_transitions es (sts, acts) = Inr (sts', acts') \<Longrightarrow>
   loaded_step sts sts' \<and> (\<forall>e\<in>set es. fst e < length sts)"
proof (induction es arbitrary: sts acts)
  case Nil
  then show ?case by (simp add: loaded_step_refl)
next
  case (Cons e rest)
  obtain n d where e: "e = (n, d)" by (cases e)
  from Cons.prems e have lt: "n < length sts" by (auto split: if_splits)
  from Cons.prems e lt obtain sts1 acts1 where
    r: "load_entries n d (sts, acts) = Inr (sts1, acts1)"
    and k: "load_transitions rest (sts1, acts1) = Inr (sts', acts')"
    by (cases "load_entries n d (sts, acts)") auto
  have a: "loaded_step sts sts1" by (rule load_entries_step[OF r])
  have b: "loaded_step sts1 sts' \<and> (\<forall>e\<in>set rest. fst e < length sts1)" by (rule Cons.IH[OF k])
  have "length sts1 = length sts" using a by (simp add: loaded_step_def)
  then show ?case using a b e lt loaded_step_trans by auto
qed

lemma load_states_names:
  "load_states es (sts, fin) = Inr (sts', fin') \<Longrightarrow>
   map lid sts' = map lid sts @ map fst es \<and>
   (\<forall>st\<in>set sts'. st \<in> set sts \<or> l_transitions st = [])"
proof (induction es arbitrary: sts fin)
  case Nil
  then show ?case by simp
next
  case (Cons e rest)
  obtain n d where e: "e = (n, d)" by (cases e)
  from Cons.prems e obtain v where v: "map_of d IS_TERMINATING = Some v"
    and r: "load_states rest
              (sts @ [\<lparr>lid = n, l_is_final = truthy v, l_transitions = []\<rparr>],
               if truthy v then Some (St (length sts)) else fin) = Inr (sts', fin')"
    by (cases "map_of d IS_TERMINATING") auto
  from Cons.IH[OF r] show ?case using e by auto
qed

lemma load_NFA_json_well_formed:
  assumes "load_NFA_json data = Inr (nfa0, acts)"
  shows "targets_valid nfa0 \<and> l_transitions (l_start_state nfa0) = [] \<and>
         startingState data = Some (lid (l_start_state nfa0)) \<and>
         (\<forall>i<length (l_states nfa0). lid (l_states nfa0 ! i) < length (l_states nfa0))"
proof -
  from assms obtain s where s: "startingState data = Some s"
    by (cases "startingState data") (auto simp: load_NFA_json_def)
  from assms s obtain sts fin where ls: "load_states (jstates data) ([], None) = Inr (sts, fin)"
    by (cases "load_states (jstates data) ([], None)") (auto simp: load_NFA_json_def)
  from assms s ls obtain sts' acts' where
    lt: "load_transitions (jstates data) (sts, []) = Inr (sts', acts')"
    by (cases "load_transitions (jstates data) (sts, [])") (auto simp: load_NFA_json_def)
  have nfa0: "nfa0 = \<lparr>l_states = sts',
                      l_start_state = \<lparr>lid = s, l_is_final = False, l_transitions = []\<rparr>,
                      l_final_state = fin\<rparr>"
    using assms s ls lt by (simp add: load_NFA_json_def)
  have names: "map lid sts = map fst (jstates data)" and empty: "\<forall>st\<in>set sts. l_transitions st = []"
    using load_states_names[OF ls] by auto
  have ab: "all_below sts" using empty by (simp add: all_below_def refs_below_def)
  have step: "loaded_step sts sts'" and idx: "\<forall>e\<in>set (jstates data). fst e < length sts"
    using load_transitions_step[OF lt] by auto
  have len: "length sts' = length sts" and names': "map lid sts' = map lid sts"
    and ab': "all_below sts'"
    using step ab by (simp_all add: loaded_step_def)
  have tv: "targets_valid nfa0"
    unfolding targets_valid_def
  proof (intro conjI allI impI)
    fix i e t
    assume "i < length (l_states nfa0)" "e \<in> set (l_transitions (l_states nfa0 ! i))" "t \<in> set (snd e)"
    then have "sts' ! i \<in> set sts'" "e \<in> set (l_transitions (sts' ! i))" "t \<in> set (snd e)"
      using nfa0 by simp_all
    then have "case t of Start \<Rightarrow> True | St j \<Rightarrow> j < length sts'"
      using ab' unfolding all_below_def refs_below_def by blast
    then show "valid_ref nfa0 t"
      using nfa0 by (cases t) (simp_all add: valid_ref_def)
  next
    fix e t
    assume "e \<in> set (l_transitions (l_start_state nfa0))"
    then show "valid_ref nfa0 t" using nfa0 by simp
  qed
  have lids: "lid (l_states nfa0 ! i) < length (l_states nfa0)" if i: "i < length (l_states nfa0)" for i
  proof -
    have i': "i < length sts'" using i nfa0 by simp
    have "lid (sts' ! i) = map lid sts' ! i" using i' by simp
    also have "\<dots> = map fst (jstates data) ! i" using names names' by simp
    also have "\<dots> = fst (jstates data ! i)"
      using i' len names by (metis length_map nth_map)
    finally have "lid (sts' ! i) = fst (jstates data ! i)" .
    moreover have "jstates data ! i \<in> set (jstates data)"
      using i' len names by (metis length_map nth_mem)
    ultimately show ?thesis using idx len nfa0 by auto
  qed
  show ?thesis using tv lids nfa0 s by simp
qed

lemma construct_DFA_returns:
  assumes l: "load_NFA_json data = Inr (nfa0, acts)"
  shows "\<exists>r. construct_DFA io data = Some r \<and>
           (case r of
              Inl e \<Rightarrow> \<not> names_valid nfa0
            | Inr D \<Rightarrow> \<exists>c news.
                dfa_epsilon_closure nfa0 Start = Some (Inr c) \<and>
                extends io \<lparr>dfa_nfa = nfa0, dfa_states = [new_DFA_State io nfa0 c False],
                            dfa_start_state = Some (new_DFA_State io nfa0 c False),
                            dfa_final_states = [], actions = acts, dfa_transitions = []\<rparr> news D)"
proof -
  have tv: "targets_valid nfa0" using load_NFA_json_well_formed[OF l] by simp
  have vs: "valid_ref nfa0 Start" by (simp add: valid_ref_def)
  from closure_returns[OF tv vs]
  obtain rc where rc0: "dfa_epsilon_closure nfa0 Start = Some rc"
    "case rc of Inr c \<Rightarrow> Start \<in> set c \<and> (\<forall>x\<in>set c. valid_ref nfa0 x) \<and> distinct c
              | Inl e \<Rightarrow> \<not> names_valid nfa0"
    by blast
  have rc: "dfa_epsilon_closure nfa0 Start = Some rc"
    "case rc of Inr c \<Rightarrow> (\<forall>x\<in>set c. valid_ref nfa0 x) | Inl e \<Rightarrow> \<not> names_valid nfa0"
    using rc0 by (cases rc; simp)+
  show ?thesis
  proof (cases rc)
    case (Inl e)
    then show ?thesis using l rc by (simp add: construct_DFA_def)
  next
    case (Inr c)
    let ?start = "new_DFA_State io nfa0 c False"
    let ?self = "\<lparr>dfa_nfa = nfa0, dfa_states = [?start], dfa_start_state = Some ?start,
                  dfa_final_states = [], actions = acts, dfa_transitions = []\<rparr>"
    have eq: "construct_DFA io data = construct_DFA_loop io [?start] ?self"
      using l rc Inr by (simp add: construct_DFA_def Let_def)
    have sv: "stack_valid (dfa_nfa ?self) [?start]"
      using rc(2) Inr by (simp add: stack_valid_def new_DFA_State_def)
    have tv': "targets_valid (dfa_nfa ?self)" using tv by simp
    from construct_DFA_loop_returns[OF tv' sv, of io]
    obtain r where r: "construct_DFA_loop io [?start] ?self = Some r"
      "case r of Inl e \<Rightarrow> \<not> names_valid (dfa_nfa ?self)
               | Inr D \<Rightarrow> \<exists>news. extends io ?self news D"
      by blast
    show ?thesis using eq r rc(1) Inr by (cases r) auto
  qed
qed

section \<open>The start DFA state\<close>

lemma construct_DFA_start_state:
  assumes l: "load_NFA_json data = Inr (nfa0, acts)"
    and c: "construct_DFA io data = Some (Inr D)"
  shows "\<exists>c. dfa_epsilon_closure nfa0 Start = Some (Inr c) \<and>
             dfa_start_state D = Some (new_DFA_State io nfa0 c False) \<and>
             l_final_state (dfa_nfa D) = l_final_state nfa0 \<and>
             list_ex (\<lambda>q. dfa_state_eq q (new_DFA_State io nfa0 c False)) (dfa_states D) \<and>
             \<not> list_ex (\<lambda>q. dfa_state_eq q (new_DFA_State io nfa0 c False)) (dfa_final_states D)"
proof -
  from construct_DFA_returns[OF l, of io] c
  obtain cl news where cl: "dfa_epsilon_closure nfa0 Start = Some (Inr cl)"
    and e: "extends io \<lparr>dfa_nfa = nfa0, dfa_states = [new_DFA_State io nfa0 cl False],
                        dfa_start_state = Some (new_DFA_State io nfa0 cl False),
                        dfa_final_states = [], actions = acts, dfa_transitions = []\<rparr> news D"
    by auto
  let ?q0 = "new_DFA_State io nfa0 cl False"
  have st: "dfa_start_state D = Some ?q0" and ds: "dfa_states D = ?q0 # news"
    and fs: "set (dfa_final_states D) \<subseteq> set news"
    and ids: "d_id ?q0 \<notin> d_id ` set news"
    and sn: "same_names nfa0 (dfa_nfa D)"
    using e by (auto simp: extends_def)
  have "l_final_state (dfa_nfa D) = l_final_state nfa0" using sn by (simp add: same_names_def)
  moreover have "list_ex (\<lambda>q. dfa_state_eq q ?q0) (dfa_states D)"
    using ds by (simp add: dfa_state_eq_def)
  moreover have "\<not> list_ex (\<lambda>q. dfa_state_eq q ?q0) (dfa_final_states D)"
  proof
    assume "list_ex (\<lambda>q. dfa_state_eq q ?q0) (dfa_final_states D)"
    then obtain q where q: "q \<in> set (dfa_final_states D)" "d_id q = d_id ?q0"
      by (auto simp: list_ex_iff dfa_state_eq_def)
    then have "q \<in> set news" using fs by blast
    then have "d_id q \<in> d_id ` set news" by (rule imageI)
    then show False using ids q(2) by simp
  qed
  ultimately show ?thesis using cl st by blast
qed

lemma construct_DFA_total:
  assumes l: "load_NFA_json data = Inr (nfa0, acts)" and nv: "names_valid nfa0"
  shows "\<exists>D. construct_DFA io data = Some (Inr D)"
proof -
  from construct_DFA_returns[OF l, of io]
  obtain r where r: "construct_DFA io data = Some r"
    "case r of
       Inl e \<Rightarrow> \<not> names_valid nfa0
     | Inr D \<Rightarrow> \<exists>c news.
                dfa_epsilon_closure nfa0 Start = Some (Inr c) \<and>
                extends io \<lparr>dfa_nfa = nfa0, dfa_states = [new_DFA_State io nfa0 c False],
                            dfa_start_state = Some (new_DFA_State io nfa0 c False),
                            dfa_final_states = [], actions = acts, dfa_transitions = []\<rparr> news D"
    by blast
  show ?thesis using r nv by (cases r) auto
qed

lemma astar_load:
  "(case regex_to_json (py ''a*'') of
      Some (Result data) \<Rightarrow> load_NFA_json data = Inr (astar_nfa, [py ''a''])
    | _ \<Rightarrow> False)"
  by code_simp

lemma astar_start_closure:
  "dfa_epsilon_closure astar_nfa Start = Some (Inr [Start, St 0, St 3])"
  by code_simp

lemma astar_names_valid: "names_valid astar_nfa"
  by (simp add: names_valid_def astar_nfa_def less_Suc_eq nth_Cons' numeral_eq_Suc)

section \<open>The key of a DFA state\<close>

lemma set_to_string_key:
  "d_id (new_DFA_State io nfa sts f) = io (inserted_ids nfa sts)"
  by (simp add: new_DFA_State_def set_to_string_def)

lemma a_inserted_ids:
  "(case regex_to_json (py ''a'') of
      Some (Result data) \<Rightarrow>
        (case load_NFA_json data of
           Inr (nfa, acts) \<Rightarrow>
             inserted_ids nfa [St 0, St 1] = [0, 1] \<and> inserted_ids nfa [St 1, St 0] = [1, 0]
         | _ \<Rightarrow> False)
    | _ \<Rightarrow> False)"
  by code_simp

section \<open>Minimization of a DFA without accepting states\<close>

lemma initial_groups_step_keeps_accepting:
  assumes "map_of (group_to_state v) 1 = Some []"
  shows "map_of (group_to_state
           (fold (\<lambda>state v.
                    let g = (if list_ex (\<lambda>f. dfa_state_eq f state) [] then 1 else 0)
                    in v\<lparr>state_to_group := AList.update (d_id state) g (state_to_group v),
                         group_to_state :=
                           AList.update g
                             (dfa_set_add (case map_of (group_to_state v) g of None \<Rightarrow> [] | Some s \<Rightarrow> s) state)
                             (group_to_state v)\<rparr>)
              sts v)) 1 = Some []"
  using assms by (induction sts arbitrary: v) (simp_all add: update_conv')

lemma initial_groups_no_final:
  assumes "dfa_final_states self = []"
  shows "map_of (group_to_state (initial_groups self)) 1 = Some []"
  unfolding initial_groups_def assms
  by (rule initial_groups_step_keeps_accepting) simp

lemma split_states_fails_without_final_states:
  assumes "dfa_final_states self = []"
  shows "split_states self tt = Some (Inl IndexError)"
    and "minimize_DFA io self = Some (Inl IndexError)"
proof -
  show s: "split_states self tt = Some (Inl IndexError)" for tt
    unfolding split_states_def Let_def initial_groups_no_final[OF assms]
    by (subst split_states_loop.simps) simp
  show "minimize_DFA io self = Some (Inl IndexError)"
    by (simp add: minimize_DFA_def s)
qed


section \<open>Claims about the parser\<close>

text \<open>
  C10. The parser terminates on every input string: each iteration of the loops of
  \<open>_parseSet\<close> and \<open>_parseGroup\<close> returns, raises, or continues at a strictly larger cursor
  that is still within the input (\<open>parseSet_step\<close>, \<open>parseGroup_step\<close>), so
  \<open>RegularCompiler(expr_str)\<close> always returns an AST or raises.
\<close>

theorem parser_terminates:
  "\<exists>r. RegularCompiler expr_str = Some r"
  using parseGroup_returns[of 0 expr_str True "[[]]" 0]
  by (auto simp: RegularCompiler_def)

theorem parser_terminates_witness:
  "\<exists>r. RegularCompiler (py ''[bc]*(cd)+'') = Some r"
  using parser_terminates[of "py ''[bc]*(cd)+''"] by simp

text \<open>
  C6. A regex that ends in a single unescaped backslash should be rejected with an error
  that carries a position. At the root level the parser does not reject it: for the
  two-character regex made of \<open>a\<close> and one backslash it returns an AST whose last node is a
  \<open>Char\<close> node with value \<open>None\<close>.
\<close>

theorem trailing_backslash_is_parsed:
  "RegularCompiler (py ''a'' @ [BACKSLASH]) =
     Some (Inr (ExprNode Root None None None None
       [[ExprNode CharN (Some (py ''a'')) None None None [],
         ExprNode CharN None None None None []]]))"
  by code_simp

text \<open>
  C7. An escaped character inside a character set should be a literal \<open>Char\<close> node. In
  \<open>[\a-z]\<close> the parser drops the backslash and then tries a range first, so the escaped
  \<open>a\<close> becomes the start of the range \<open>a-z\<close>: the set holds one \<open>Range\<close> node and no
  \<open>Char\<close> node.
\<close>

theorem escaped_char_in_set_starts_range:
  "RegularCompiler (py ''['' @ [BACKSLASH] @ py ''a-z]'') =
     Some (Inr (ExprNode Root None None None None
       [[ExprNode CharacterSet None None None None
          [[ExprNode RangeN None None (Some (ch CHR ''a'')) (Some (ch CHR ''z'')) []]]]]))"
  by code_simp



section \<open>Claims about the automata\<close>

text \<open>
  C1. Language equivalence of the NFA, the DFA and the minimized DFA fails for the regex
  \<open>a\<close> on the input \<open>a\<close>, whatever the iteration order \<open>io\<close> of the sets of names. The NFA
  accepts. The start DFA state holds only the detached start object, which has no
  transitions, so the DFA has no transition and no accepting state and accepts nothing;
  minimization of that DFA raises \<open>IndexError\<close>.
\<close>

theorem nfa_and_dfa_disagree_on_a:
  "regex_match (py ''a'') (py ''a'') = Some (Result True) \<and>
   (case regex_to_dfa io (py ''a'') False of
      Some (Result D) \<Rightarrow>
        dfa_final_states D = [] \<and> dfa_transitions D = [] \<and>
        dfa_accepts D (py ''a'') = Inr False
    | _ \<Rightarrow> False) \<and>
   regex_to_dfa io (py ''a'') True = Some (PyError IndexError)"
  by code_simp

text \<open>
  C2. A DFA state should be accepting exactly when it contains the NFA accept state, the
  start DFA state included. \<open>__construct_DFA\<close> tests only the states it creates inside the
  loop: for the regex \<open>a*\<close>, under every iteration order \<open>io\<close>, the start DFA state contains
  the NFA accept state and is a state of the DFA, but is not in \<open>final_states\<close>.
\<close>

theorem start_state_never_accepting:
  "(case regex_to_dfa io (py ''a*'') False of
      Some (Result D) \<Rightarrow>
        (case dfa_start_state D of
           Some q0 \<Rightarrow>
             (case l_final_state (dfa_nfa D) of
                Some f \<Rightarrow> f \<in> set (d_states q0)
              | None \<Rightarrow> False) \<and>
             list_ex (\<lambda>q. dfa_state_eq q q0) (dfa_states D) \<and>
             \<not> list_ex (\<lambda>q. dfa_state_eq q q0) (dfa_final_states D)
         | None \<Rightarrow> False)
    | _ \<Rightarrow> False)"
proof -
  from astar_load obtain data where
    j: "regex_to_json (py ''a*'') = Some (Result data)"
    and l: "load_NFA_json data = Inr (astar_nfa, [py ''a''])"
    by (cases "regex_to_json (py ''a*'')") (auto split: outcome.splits)
  from construct_DFA_total[OF l astar_names_valid, of io]
  obtain D where c: "construct_DFA io data = Some (Inr D)" by blast
  from construct_DFA_start_state[OF l c] astar_start_closure
  have st: "dfa_start_state D = Some (new_DFA_State io astar_nfa [Start, St 0, St 3] False)"
    and fin: "l_final_state (dfa_nfa D) = l_final_state astar_nfa"
    and a: "list_ex (\<lambda>q. dfa_state_eq q (new_DFA_State io astar_nfa [Start, St 0, St 3] False))
              (dfa_states D)"
    and b: "\<not> list_ex (\<lambda>q. dfa_state_eq q (new_DFA_State io astar_nfa [Start, St 0, St 3] False))
              (dfa_final_states D)"
    by auto
  have r: "regex_to_dfa io (py ''a*'') False = Some (Result D)"
    using j c by (simp add: regex_to_dfa_def build_def)
  have f: "l_final_state astar_nfa = Some (St 3)" by (simp add: astar_nfa_def)
  have m: "St 3 \<in> set (d_states (new_DFA_State io astar_nfa [Start, St 0, St 3] False))"
    by (simp add: new_DFA_State_def)
  show ?thesis using r st fin a b f m by simp
qed

text \<open>
  C3. Two DFA states over the same NFA states should always be the same state. The key
  is the names joined in the iteration order of the Python set \<open>{s.id for s in self.states}\<close>,
  with no sorting, so it is canonical only as far as that order is. Where the order of a
  set of names is fixed by its members (\<open>io\<close> gives one sequence for all sequences of
  insertion of the same names), two \<open>DFA_State\<close> objects are equal exactly when their sets
  of names are. Where the order of the set \<open>{S0, S1}\<close> follows the order of insertion
  (\<open>io [0, 1] \<noteq> io [1, 0]\<close>, which is what happens when the two strings fall on the same
  slot of the table), the two \<open>DFA_State\<close> objects holding the NFA states \<open>S0\<close> and \<open>S1\<close> of
  the loaded NFA of \<open>a\<close> in the two orders have the same set of names, different keys, are
  not equal, and are both kept in a set of DFA states.
\<close>

theorem dfa_state_key_depends_on_order:
  "(\<forall>io nfa xs ys f g.
      (\<forall>as bs. distinct as \<longrightarrow> distinct bs \<longrightarrow> set as = set bs \<longrightarrow> io as = io bs) \<longrightarrow>
      (\<forall>as. distinct as \<longrightarrow> set (io as) = set as) \<longrightarrow>
      dfa_state_eq (new_DFA_State io nfa xs f) (new_DFA_State io nfa ys g)
        = (sref_id nfa ` set xs = sref_id nfa ` set ys)) \<and>
   (\<forall>io. io [0, 1] \<noteq> io [1, 0] \<longrightarrow>
      (case regex_to_json (py ''a'') of
         Some (Result data) \<Rightarrow>
           (case load_NFA_json data of
              Inr (nfa, acts) \<Rightarrow>
                (let A = new_DFA_State io nfa [St 0, St 1] False;
                     B = new_DFA_State io nfa [St 1, St 0] False
                 in set (d_states A) = set (d_states B) \<and>
                    sref_id nfa ` set (d_states A) = sref_id nfa ` set (d_states B) \<and>
                    d_id A = io [0, 1] \<and> d_id B = io [1, 0] \<and>
                    \<not> dfa_state_eq A B \<and> dfa_set_add [A] B = [A, B])
            | _ \<Rightarrow> False)
       | _ \<Rightarrow> False))"
proof (intro conjI allI impI)
  fix io :: iter_order and nfa xs ys f g
  assume canon: "\<forall>as bs. distinct as \<longrightarrow> distinct bs \<longrightarrow> set as = set bs \<longrightarrow> io as = io bs"
    and perm: "\<forall>as. distinct as \<longrightarrow> set (io as) = set as"
  note ix = inserted_ids_spec[of nfa xs] and iy = inserted_ids_spec[of nfa ys]
  show "dfa_state_eq (new_DFA_State io nfa xs f) (new_DFA_State io nfa ys g)
        = (sref_id nfa ` set xs = sref_id nfa ` set ys)"
  proof
    assume "dfa_state_eq (new_DFA_State io nfa xs f) (new_DFA_State io nfa ys g)"
    then have "io (inserted_ids nfa xs) = io (inserted_ids nfa ys)"
      by (simp add: dfa_state_eq_def set_to_string_key)
    then have "set (io (inserted_ids nfa xs)) = set (io (inserted_ids nfa ys))" by simp
    then show "sref_id nfa ` set xs = sref_id nfa ` set ys"
      using perm ix iy by simp
  next
    assume "sref_id nfa ` set xs = sref_id nfa ` set ys"
    then have "set (inserted_ids nfa xs) = set (inserted_ids nfa ys)" using ix iy by simp
    then have "io (inserted_ids nfa xs) = io (inserted_ids nfa ys)"
      using canon ix iy by blast
    then show "dfa_state_eq (new_DFA_State io nfa xs f) (new_DFA_State io nfa ys g)"
      by (simp add: dfa_state_eq_def set_to_string_key)
  qed
next
  fix io :: iter_order
  assume ne: "io [0, 1] \<noteq> io [1, 0]"
  from a_inserted_ids obtain data nfa acts where
    j: "regex_to_json (py ''a'') = Some (Result data)"
    and l: "load_NFA_json data = Inr (nfa, acts)"
    and i: "inserted_ids nfa [St 0, St 1] = [0, 1]" "inserted_ids nfa [St 1, St 0] = [1, 0]"
    by (cases "regex_to_json (py ''a'')")
       (auto split: outcome.splits sum.splits)
  let ?A = "new_DFA_State io nfa [St 0, St 1] False"
  let ?B = "new_DFA_State io nfa [St 1, St 0] False"
  have ka: "d_id ?A = io [0, 1]" and kb: "d_id ?B = io [1, 0]"
    using i by (simp_all add: set_to_string_key)
  have sa: "d_states ?A = [St 0, St 1]" and sb: "d_states ?B = [St 1, St 0]"
    by (simp_all add: new_DFA_State_def)
  have neq: "\<not> dfa_state_eq ?A ?B" using ka kb ne by (simp add: dfa_state_eq_def)
  have add: "dfa_set_add [?A] ?B = [?A, ?B]" using neq by (simp add: dfa_set_add_def)
  have "set (d_states ?A) = set (d_states ?B)" using sa sb by auto
  moreover have "sref_id nfa ` set (d_states ?A) = sref_id nfa ` set (d_states ?B)"
    using sa sb by auto
  ultimately show "case regex_to_json (py ''a'') of
         Some (Result data) \<Rightarrow>
           (case load_NFA_json data of
              Inr (nfa, acts) \<Rightarrow>
                (let A = new_DFA_State io nfa [St 0, St 1] False;
                     B = new_DFA_State io nfa [St 1, St 0] False
                 in set (d_states A) = set (d_states B) \<and>
                    sref_id nfa ` set (d_states A) = sref_id nfa ` set (d_states B) \<and>
                    d_id A = io [0, 1] \<and> d_id B = io [1, 0] \<and>
                    \<not> dfa_state_eq A B \<and> dfa_set_add [A] B = [A, B])
            | _ \<Rightarrow> False)
       | _ \<Rightarrow> False"
    using j l ka kb neq add by (simp add: Let_def)
qed

theorem dfa_state_key_depends_on_order_witness:
  "dfa_state_eq (new_DFA_State sort astar_nfa [St 0, St 1] False)
                (new_DFA_State sort astar_nfa [St 1, St 0] False) \<and>
   (case regex_to_json (py ''a'') of
      Some (Result data) \<Rightarrow>
        (case load_NFA_json data of
           Inr (nfa, acts) \<Rightarrow>
             (let A = new_DFA_State (\<lambda>xs. xs) nfa [St 0, St 1] False;
                  B = new_DFA_State (\<lambda>xs. xs) nfa [St 1, St 0] False
              in set (d_states A) = set (d_states B) \<and>
                 sref_id nfa ` set (d_states A) = sref_id nfa ` set (d_states B) \<and>
                 d_id A = [0, 1] \<and> d_id B = [1, 0] \<and>
                 \<not> dfa_state_eq A B \<and> dfa_set_add [A] B = [A, B])
         | _ \<Rightarrow> False)
    | _ \<Rightarrow> False)"
proof -
  note t = dfa_state_key_depends_on_order
  have canon: "sort as = sort bs"
    if "distinct as" "distinct bs" "set as = set bs" for as bs :: "name list"
    using that by (intro sorted_distinct_set_unique) simp_all
  have perm: "set (sort as) = set as" if "distinct as" for as :: "name list" by simp
  have "dfa_state_eq (new_DFA_State sort astar_nfa [St 0, St 1] False)
                     (new_DFA_State sort astar_nfa [St 1, St 0] False)
        = (sref_id astar_nfa ` set [St 0, St 1] = sref_id astar_nfa ` set [St 1, St 0])"
    using t[THEN conjunct1, rule_format, OF canon perm] .
  then have a: "dfa_state_eq (new_DFA_State sort astar_nfa [St 0, St 1] False)
                     (new_DFA_State sort astar_nfa [St 1, St 0] False)"
    by auto
  have ne: "(\<lambda>xs. xs) [0, 1] \<noteq> (\<lambda>xs :: name list. xs) [1, 0]" by simp
  from t[THEN conjunct2, rule_format, OF ne] a show ?thesis by simp
qed

text \<open>
  C4. Exporting the NFA of \<open>a\<close> and loading the file back does not give the start state
  its outgoing transition: in the built NFA the start state \<open>S0\<close> has the transition
  \<open>a\<close> to \<open>S1\<close>; after the round trip \<open>nfa.start_state\<close> is a new object named \<open>S0\<close> with no
  transitions, and only the element \<open>nfa.states[0]\<close> carries the transition.
\<close>

theorem reloaded_start_state_has_no_transitions:
  "(case regex_to_nfa (py ''a'') of
      Some (Result n) \<Rightarrow>
        start_state n = Some 0 \<and>
        transitions (states n ! 0) = [(Some (py ''a''), [1])] \<and>
        (case to_json n of
           Inr j \<Rightarrow>
             (case load_NFA_json (json_file j) of
                Inr (l, acts) \<Rightarrow>
                  lid (l_start_state l) = 0 \<and>
                  l_transitions (l_start_state l) = [] \<and>
                  l_transitions (l_states l ! 0) = [(py ''a'', [St 1])]
              | _ \<Rightarrow> False)
         | _ \<Rightarrow> False)
    | _ \<Rightarrow> False)"
  by code_simp

text \<open>
  C5. Minimization should drop an empty group of the initial partition. \<open>__split_states\<close>
  pushes both initial groups on the stack and takes \<open>list(curr_states)[0]\<close> of whatever it
  pops: the DFA of \<open>a\<close> has the start state as its only state and no accepting state, the
  accepting group is empty, and minimization raises \<open>IndexError\<close>, under every iteration
  order \<open>io\<close>.
\<close>

theorem minimize_fails_on_empty_group:
  "(case regex_to_dfa io (py ''a'') False of
      Some (Result D) \<Rightarrow>
        (case dfa_start_state D of Some q0 \<Rightarrow> dfa_states D = [q0] | None \<Rightarrow> False) \<and>
        dfa_final_states D = [] \<and>
        split_states D (create_transition_table D) = Some (Inl IndexError) \<and>
        minimize_DFA io D = Some (Inl IndexError)
    | _ \<Rightarrow> False)"
  by code_simp

text \<open>
  C9. Subset construction writes to the NFA it reads, and it returns. On a well-formed
  NFA store (every stored target is a state object of the store, every name is an index
  of \<open>nfa.states\<close>), \<open>__get_reachable_states\<close> on a DFA state that contains the state
  \<open>nfa.states[i]\<close> and a label \<open>l\<close> (not the epsilon key) for which that state stores a target
  set returns, and the set stored afterwards is the original set together with the
  epsilon closures of its members. The store that \<open>__load_NFA_json\<close> builds has valid
  targets, so \<open>__construct_DFA\<close> returns on every file that loads, under every iteration
  order \<open>io\<close>; when the name of the start state is an index of \<open>nfa.states\<close> it returns a
  DFA, and every target set that the loader stored is still stored, as a superset
  (\<open>nfa_grows\<close>). For the regex \<open>a*\<close> the set of \<open>S0\<close> on \<open>a\<close> grows from \<open>{S1}\<close> to
  \<open>{S1, S2, S3, S0}\<close>.
\<close>

theorem subset_construction_updates_nfa:
  "(\<forall>nfa T l i ts.
      targets_valid nfa \<longrightarrow> names_valid nfa \<longrightarrow>
      (\<forall>x\<in>set (d_states T). valid_ref nfa x) \<longrightarrow> distinct (d_states T) \<longrightarrow>
      St i \<in> set (d_states T) \<longrightarrow> l \<noteq> EPSILON \<longrightarrow> targets_of nfa i l = Some ts \<longrightarrow>
      (\<exists>R nfa' ts'.
         get_reachable_states nfa T l = Some (Inr (R, nfa')) \<and>
         targets_of nfa' i l = Some ts' \<and>
         set ts' = set ts \<union> (\<Union>t\<in>set ts. eps_closure_set nfa t))) \<and>
   (\<forall>io data nfa0 acts.
      load_NFA_json data = Inr (nfa0, acts) \<longrightarrow>
      targets_valid nfa0 \<and>
      (\<exists>r. construct_DFA io data = Some r) \<and>
      (lid (l_start_state nfa0) < length (l_states nfa0) \<longrightarrow>
       names_valid nfa0 \<and>
       (\<exists>D. construct_DFA io data = Some (Inr D) \<and> nfa_grows nfa0 (dfa_nfa D))))"
proof (intro conjI allI impI)
  fix nfa and T :: DFA_State and l i ts
  assume tv: "targets_valid nfa" and nv: "names_valid nfa"
    and v: "\<forall>x\<in>set (d_states T). valid_ref nfa x"
    and d: "distinct (d_states T)" and m: "St i \<in> set (d_states T)"
    and ne: "l \<noteq> EPSILON" and tg: "targets_of nfa i l = Some ts"
  have lt: "i < length (l_states nfa)" using v m by (auto simp: valid_ref_def)
  have e: "\<forall>x\<in>set ([] :: sref list). valid_ref nfa x" by simp
  from reachable_loop_returns[OF tv v e, of l]
  obtain r where r: "get_reachable_states_loop (d_states T) l ([], nfa) = Some r"
    "case r of
       Inr (R, nfa') \<Rightarrow> targets_valid nfa' \<and> same_names nfa nfa' \<and> (\<forall>x\<in>set R. valid_ref nfa x)
     | Inl e \<Rightarrow> \<not> names_valid nfa"
    by blast
  from r(2) nv obtain R nfa' where p: "r = Inr (R, nfa')" by (cases r) auto
  have run: "get_reachable_states_loop (d_states T) l ([], nfa) = Some (Inr (R, nfa'))"
    using r(1) p by simp
  from reachable_loop_effect[OF run same_eps_refl ne d] m lt tg
  obtain ts' where "targets_of nfa' i l = Some ts'"
    "set ts' = set ts \<union> (\<Union>t\<in>set ts. eps_closure_set nfa t)"
    by blast
  then show "\<exists>R nfa' ts'.
         get_reachable_states nfa T l = Some (Inr (R, nfa')) \<and>
         targets_of nfa' i l = Some ts' \<and>
         set ts' = set ts \<union> (\<Union>t\<in>set ts. eps_closure_set nfa t)"
    using run by (auto simp: get_reachable_states_def)
next
  fix io data nfa0 acts
  assume l: "load_NFA_json data = Inr (nfa0, acts)"
  show "targets_valid nfa0" using load_NFA_json_well_formed[OF l] by simp
next
  fix io data nfa0 acts
  assume l: "load_NFA_json data = Inr (nfa0, acts)"
  show "\<exists>r. construct_DFA io data = Some r" using construct_DFA_returns[OF l, of io] by blast
next
  fix io data nfa0 acts
  assume l: "load_NFA_json data = Inr (nfa0, acts)"
    and s: "lid (l_start_state nfa0) < length (l_states nfa0)"
  show "names_valid nfa0" using load_NFA_json_well_formed[OF l] s by (simp add: names_valid_def)
next
  fix io data nfa0 acts
  assume l: "load_NFA_json data = Inr (nfa0, acts)"
    and s: "lid (l_start_state nfa0) < length (l_states nfa0)"
  have nv: "names_valid nfa0" using load_NFA_json_well_formed[OF l] s by (simp add: names_valid_def)
  from construct_DFA_total[OF l nv, of io]
  obtain D where c: "construct_DFA io data = Some (Inr D)" by blast
  then show "\<exists>D. construct_DFA io data = Some (Inr D) \<and> nfa_grows nfa0 (dfa_nfa D)"
    using construct_DFA_grows[OF l c] by blast
qed

theorem subset_construction_updates_nfa_witness:
  "(\<exists>R nfa' ts'.
      get_reachable_states astar_nfa astar_start (py ''a'') = Some (Inr (R, nfa')) \<and>
      targets_of astar_nfa 0 (py ''a'') = Some [St 1] \<and>
      targets_of nfa' 0 (py ''a'') = Some ts' \<and> set ts' = {St 0, St 1, St 2, St 3}) \<and>
   (\<exists>data D.
      regex_to_json (py ''a*'') = Some (Result data) \<and>
      load_NFA_json data = Inr (astar_nfa, [py ''a'']) \<and>
      construct_DFA (\<lambda>xs. xs) data = Some (Inr D) \<and>
      nfa_grows astar_nfa (dfa_nfa D) \<and>
      targets_of (dfa_nfa D) 0 (py ''a'') = Some [St 1, St 2, St 3, St 0])"
proof -
  note t = subset_construction_updates_nfa
  from astar_pipeline obtain data where
    j: "regex_to_json (py ''a*'') = Some (Result data)"
    and l: "load_NFA_json data = Inr (astar_nfa, [py ''a''])"
    and r: "(case construct_DFA (\<lambda>xs. xs) data of
               Some (Inr D) \<Rightarrow> dfa_nfa D = astar_nfa_after \<and> dfa_start_state D = Some astar_start
             | _ \<Rightarrow> False)"
    by (cases "regex_to_json (py ''a*'')") (auto split: outcome.splits)
  have s: "lid (l_start_state astar_nfa) < length (l_states astar_nfa)"
    by (simp add: astar_nfa_def)
  note b = t[THEN conjunct2, rule_format, OF l, of "\<lambda>xs. xs"]
  have tv: "targets_valid astar_nfa" using b by simp
  have nv: "names_valid astar_nfa" using b s by simp
  from b s obtain D where
    c: "construct_DFA (\<lambda>xs. xs) data = Some (Inr D)" and g: "nfa_grows astar_nfa (dfa_nfa D)"
    by blast
  have n: "dfa_nfa D = astar_nfa_after" using r c by simp
  have v: "valid_ref astar_nfa x" if "x \<in> set (d_states astar_start)" for x
    using that by (auto simp: astar_start_def astar_nfa_def valid_ref_def)
  have d: "distinct (d_states astar_start)" "St 0 \<in> set (d_states astar_start)"
    "py ''a'' \<noteq> EPSILON"
    by (simp_all add: astar_start_def EPSILON_def)
  from t[THEN conjunct1, rule_format, OF tv nv v d astar_targets]
  obtain R nfa' ts' where
    run: "get_reachable_states astar_nfa astar_start (py ''a'') = Some (Inr (R, nfa'))"
    and ts': "targets_of nfa' 0 (py ''a'') = Some ts'"
      "set ts' = set [St 1] \<union> (\<Union>t\<in>set [St 1]. eps_closure_set astar_nfa t)"
    by blast
  have "eps_closure_set astar_nfa (St 1) = {St 0, St 1, St 2, St 3}"
    unfolding eps_closure_set_def astar_closure by auto
  then have "set ts' = {St 0, St 1, St 2, St 3}" using ts'(2) by auto
  then have a: "\<exists>R nfa' ts'.
      get_reachable_states astar_nfa astar_start (py ''a'') = Some (Inr (R, nfa')) \<and>
      targets_of astar_nfa 0 (py ''a'') = Some [St 1] \<and>
      targets_of nfa' 0 (py ''a'') = Some ts' \<and> set ts' = {St 0, St 1, St 2, St 3}"
    using run astar_targets ts'(1) by blast
  have "targets_of (dfa_nfa D) 0 (py ''a'') = Some [St 1, St 2, St 3, St 0]"
    unfolding n by code_simp
  then show ?thesis using a j l c g by blast
qed

end
